theory Spec2Isabelle
  imports Main "HOL-Library.Sublist" "HOL-Library.Char_ord" "HOL-Library.List_Lexorder"
    "HOL-Library.AList"
begin

section \<open>Python strings\<close>

text \<open>
  A Python \<open>str\<close> is modelled as a \<open>string\<close> (a list of characters); a character of
  the model stands for one Python character. The functions below are the string methods
  that \<open>autogpt/commands/file_operations.py\<close> and the \<open>posixpath\<close> functions it calls use.
\<close>

definition startswith :: "string \<Rightarrow> string \<Rightarrow> bool" where
  "startswith s p = (take (length p) s = p)"

definition endswith :: "string \<Rightarrow> string \<Rightarrow> bool" where
  "endswith s p = (length p \<le> length s \<and> drop (length s - length p) s = p)"

text \<open>\<open>s.split(sep)\<close> for a one-character separator: never an empty list.\<close>

fun str_split :: "char \<Rightarrow> string \<Rightarrow> string list" where
  "str_split sep [] = [[]]"
| "str_split sep (c # cs) =
     (if c = sep then [] # str_split sep cs
      else (case str_split sep cs of [] \<Rightarrow> [[c]] | w # ws \<Rightarrow> (c # w) # ws))"

text \<open>\<open>sep.join(xs)\<close>.\<close>

fun str_join :: "string \<Rightarrow> string list \<Rightarrow> string" where
  "str_join sep [] = []"
| "str_join sep [x] = x"
| "str_join sep (x # y # ys) = x @ sep @ str_join sep (y # ys)"

text \<open>\<open>needle in haystack\<close> on strings: a contiguous occurrence.\<close>

fun str_contains :: "string \<Rightarrow> string \<Rightarrow> bool" where
  "str_contains needle [] = (needle = [])"
| "str_contains needle (c # cs) = (prefix needle (c # cs) \<or> str_contains needle cs)"

text \<open>
  Python slicing \<open>xs[i:j]\<close> on unbounded integers: a negative index counts from the end,
  and both bounds are clamped to the length.
\<close>

definition py_slice :: "'a list \<Rightarrow> int \<Rightarrow> int \<Rightarrow> 'a list" where
  "py_slice xs i j =
     (let n = int (length xs);
          lo = (if i < 0 then max (i + n) 0 else min i n);
          hi = (if j < 0 then max (j + n) 0 else min j n)
      in take (nat (hi - lo)) (drop (nat lo) xs))"

section \<open>The \<open>posixpath\<close> functions\<close>

text \<open>
  \<open>os.path.join(a, *p)\<close>: a segment that starts with a slash replaces what was joined so
  far; otherwise it is appended after a single slash.
\<close>

fun join_loop :: "string \<Rightarrow> string list \<Rightarrow> string" where
  "join_loop path [] = path"
| "join_loop path (b # p) =
     join_loop (if startswith b ''/'' \<or> path = [] then b
                else if endswith path ''/'' then path @ b
                else path @ ''/'' @ b) p"

definition os_path_join :: "string \<Rightarrow> string list \<Rightarrow> string" where
  "os_path_join a p = join_loop a p"

text \<open>
  \<open>os.path.normpath(path)\<close>: the loop over the components keeps a stack \<open>new_comps\<close>;
  \<open>initial_slashes\<close> is 0, 1 or 2 (exactly two leading slashes are kept).
\<close>

fun normpath_loop :: "nat \<Rightarrow> string list \<Rightarrow> string list \<Rightarrow> string list" where
  "normpath_loop initial_slashes new_comps [] = new_comps"
| "normpath_loop initial_slashes new_comps (cmpnt # comps) =
     (if cmpnt = [] \<or> cmpnt = ''.'' then normpath_loop initial_slashes new_comps comps
      else if cmpnt \<noteq> ''..'' \<or> (initial_slashes = 0 \<and> new_comps = [])
              \<or> (new_comps \<noteq> [] \<and> last new_comps = ''..'')
        then normpath_loop initial_slashes (new_comps @ [cmpnt]) comps
      else if new_comps \<noteq> [] then normpath_loop initial_slashes (butlast new_comps) comps
      else normpath_loop initial_slashes new_comps comps)"

definition initial_slashes_of :: "string \<Rightarrow> nat" where
  "initial_slashes_of path =
     (if startswith path ''/''
      then (if startswith path ''//'' \<and> \<not> startswith path ''///'' then 2 else 1)
      else 0)"

definition normpath :: "string \<Rightarrow> string" where
  "normpath path =
     (if path = [] then ''.''
      else
        let initial_slashes = initial_slashes_of path;
            comps = normpath_loop initial_slashes [] (str_split CHR ''/'' path);
            p = replicate initial_slashes CHR ''/'' @ str_join ''/'' comps
        in if p = [] then ''.'' else p)"

text \<open>
  \<open>os.path.commonprefix(m)\<close>: the longest common leading part of the least and the
  greatest element of \<open>m\<close>, compared item by item (for strings: character by character,
  not path component by path component). The loop reads \<open>s2[i]\<close> for every index of
  \<open>s1\<close>; as \<open>s1 \<le> s2\<close> the index is in range, and the model's second equation is never
  reached from \<open>commonprefix\<close>.
\<close>

fun common_loop :: "'a list \<Rightarrow> 'a list \<Rightarrow> 'a list" where
  "common_loop [] s2 = []"
| "common_loop (c # s1) [] = []"
| "common_loop (c # s1) (d # s2) = (if c \<noteq> d then [] else c # common_loop s1 s2)"

definition commonprefix :: "('a::linorder) list list \<Rightarrow> 'a list" where
  "commonprefix m = (if m = [] then [] else common_loop (Min (set m)) (Max (set m)))"

section \<open>Exceptions\<close>

text \<open>
  Every exception the modelled code can meet derives from \<open>Exception\<close>, so a handler
  \<open>except Exception as e\<close> catches each of them. \<open>OSError\<close> carries the error number and the
  file name the failing system call was given.
\<close>

datatype errno = ENOENT | EEXIST | ENOTDIR | EISDIR

datatype exn = ValueError string | OSError errno string | RecursionError

section \<open>Path guard: \<open>safe_join\<close>\<close>

text \<open>
  The configuration object \<open>CFG\<close> is not part of the sources; the field \<open>restricted\<close> of the
  environment is the outcome of the test
  \<open>str(CFG.working_directory_restricted).lower() == "true"\<close>. \<open>working_directory\<close> is the
  value of the module constant \<open>WORKING_DIRECTORY\<close>, the string of
  \<open>Path(os.getcwd()) / "auto_gpt_workspace"\<close>. \<open>cwd\<close> is the value of \<open>os.getcwd()\<close> at
  the time of a call.
\<close>

record env =
  restricted :: bool
  working_directory :: string
  cwd :: string

definition safe_join :: "env \<Rightarrow> string \<Rightarrow> string list \<Rightarrow> exn + string" where
  "safe_join cfg base paths =
     (if restricted cfg then
        (let new_path = normpath (os_path_join base paths) in
         if commonprefix [base, new_path] \<noteq> base
         then Inl (ValueError ''Attempted to access outside of working directory.'')
         else Inr new_path)
      else Inr (normpath (os_path_join ''/'' paths)))"

section \<open>Chunker: \<open>split_file\<close>\<close>

text \<open>
  The generator's loop, from a given \<open>start\<close>: the chunks it yields from there on, in
  order. The loop does not end when the stride \<open>max_length - overlap\<close> is not positive
  and the content is not empty: then the value is \<open>None\<close>.
\<close>

partial_function (option) split_file_loop ::
  "string \<Rightarrow> int \<Rightarrow> int \<Rightarrow> int \<Rightarrow> string list option" where
  "split_file_loop content max_length overlap start =
     (if start < int (length content) then
        Option.bind
          (split_file_loop content max_length overlap (start + (max_length - overlap)))
          (\<lambda>rest.
             Some ((if start + max_length + overlap < int (length content)
                    then py_slice content start (start + max_length + overlap)
                    else py_slice content start (int (length content))) # rest))
      else Some [])"

definition split_file :: "string \<Rightarrow> int \<Rightarrow> int \<Rightarrow> string list option" where
  "split_file content max_length overlap = split_file_loop content max_length overlap 0"

section \<open>Error messages\<close>

text \<open>
  \<open>repr\<close> of a string, as \<open>str(e)\<close> of an \<open>OSError\<close> prints the file name: in quotes, with
  the quote character, the backslash and every character that is not printable escaped.
  A line feed is printed as a backslash and the letter n.
\<close>

definition hex_digit :: "nat \<Rightarrow> char" where
  "hex_digit n = ''0123456789abcdef'' ! (n mod 16)"

definition repr_char :: "char \<Rightarrow> char \<Rightarrow> string" where
  "repr_char quote c =
     (let n = (of_char c :: nat) in
      if c = quote \<or> c = CHR 0x5C then [CHR 0x5C, c]
      else if c = CHR 0x09 then [CHR 0x5C, CHR ''t'']
      else if c = CHR 0x0A then [CHR 0x5C, CHR ''n'']
      else if c = CHR 0x0D then [CHR 0x5C, CHR ''r'']
      else if n < 32 \<or> n = 127 \<or> (128 \<le> n \<and> n \<le> 160) \<or> n = 173
        then [CHR 0x5C, CHR ''x'', hex_digit (n div 16), hex_digit n]
      else [c])"

definition py_repr :: "string \<Rightarrow> string" where
  "py_repr s =
     (let quote = (if CHR 0x27 \<in> set s \<and> CHR 0x22 \<notin> set s then CHR 0x22 else CHR 0x27)
      in [quote] @ concat (map (repr_char quote) s) @ [quote])"

fun errno_text :: "errno \<Rightarrow> string" where
  "errno_text ENOENT = ''[Errno 2] No such file or directory''"
| "errno_text EEXIST = ''[Errno 17] File exists''"
| "errno_text ENOTDIR = ''[Errno 20] Not a directory''"
| "errno_text EISDIR = ''[Errno 21] Is a directory''"

text \<open>\<open>str(e)\<close>.\<close>

fun str_exn :: "exn \<Rightarrow> string" where
  "str_exn (ValueError msg) = msg"
| "str_exn (OSError e filename) = errno_text e @ '': '' @ py_repr filename"
| "str_exn RecursionError = ''maximum recursion depth exceeded''"

section \<open>The file system\<close>

text \<open>
  The file system is a tree: a regular file holds its content, a directory holds its
  entries in the order a directory listing returns them. There are no symbolic links and
  no permissions. A path is resolved from the root by its non-empty components; every
  path the modelled code hands to the operating system is absolute and normalized
  (\<open>WORKING_DIRECTORY\<close> is absolute), so the current directory plays no part here.
\<close>

datatype node = File string | Dir "(string \<times> node) list"

definition path_comps :: "string \<Rightarrow> string list" where
  "path_comps p = filter (\<lambda>c. c \<noteq> []) (str_split CHR ''/'' p)"

fun stat_at :: "node option \<Rightarrow> string list \<Rightarrow> errno + node" where
  "stat_at None cs = Inl ENOENT"
| "stat_at (Some n) [] = Inr n"
| "stat_at (Some (File content)) (c # cs) = Inl ENOTDIR"
| "stat_at (Some (Dir es)) (c # cs) = stat_at (map_of es c) cs"

text \<open>
  A change of one directory entry: \<open>f\<close> maps the entry found at the path (\<open>None\<close> when there
  is none) to the new entry (\<open>None\<close> to remove it), or fails.
\<close>

fun upd :: "(node option \<Rightarrow> errno + node option) \<Rightarrow> node option \<Rightarrow> string list
    \<Rightarrow> errno + node option" where
  "upd f x [] = f x"
| "upd f None (c # cs) = Inl ENOENT"
| "upd f (Some (File content)) (c # cs) = Inl ENOTDIR"
| "upd f (Some (Dir es)) (c # cs) =
     (case upd f (map_of es c) cs of
        Inl e \<Rightarrow> Inl e
      | Inr None \<Rightarrow> Inr (Some (Dir (AList.delete c es)))
      | Inr (Some n) \<Rightarrow> Inr (Some (Dir (AList.update c n es))))"

text \<open>
  What a path leads to: the entry at the path (\<open>None\<close> when the path does not resolve),
  the content of the regular file there, and whether a directory is there.
\<close>

fun entry_at :: "node option \<Rightarrow> string list \<Rightarrow> node option" where
  "entry_at x [] = x"
| "entry_at None (c # cs) = None"
| "entry_at (Some (File content)) (c # cs) = None"
| "entry_at (Some (Dir es)) (c # cs) = entry_at (map_of es c) cs"

definition content_at :: "node option \<Rightarrow> string list \<Rightarrow> string option" where
  "content_at x cs = (case entry_at x cs of Some (File content) \<Rightarrow> Some content | _ \<Rightarrow> None)"

definition dir_at :: "node option \<Rightarrow> string list \<Rightarrow> bool" where
  "dir_at x cs = (case entry_at x cs of Some (Dir es) \<Rightarrow> True | _ \<Rightarrow> False)"

text \<open>
  A change of a file: \<open>f\<close> fails on a directory and never makes one. So do writing,
  appending and removing.
\<close>

definition file_change :: "(node option \<Rightarrow> errno + node option) \<Rightarrow> bool" where
  "file_change f \<longleftrightarrow>
     (\<forall>es y. f (Some (Dir es)) \<noteq> Inr y) \<and> (\<forall>x es. f x \<noteq> Inr (Some (Dir es)))"

text \<open>
  The log file can be appended to: its directory exists and no directory is in its
  place.
\<close>

definition appendable :: "node \<Rightarrow> string list \<Rightarrow> bool" where
  "appendable fs L \<longleftrightarrow> L \<noteq> [] \<and> dir_at (Some fs) (butlast L) \<and> \<not> dir_at (Some fs) L"

text \<open>
  From \<open>fs\<close> to \<open>fs'\<close> only the log at \<open>L\<close> was extended: the same paths are directories,
  every other regular file kept its content, and the log kept its content as a leading
  part of the new one.
\<close>

definition log_extends :: "string list \<Rightarrow> node \<Rightarrow> node \<Rightarrow> bool" where
  "log_extends L fs fs' \<longleftrightarrow>
     (\<forall>ds. dir_at (Some fs') ds = dir_at (Some fs) ds)
     \<and> (\<forall>ds c. ds \<noteq> L \<longrightarrow> content_at (Some fs) ds = Some c \<longrightarrow> content_at (Some fs') ds = Some c)
     \<and> (\<forall>c. content_at (Some fs) L = Some c \<longrightarrow> (\<exists>s. content_at (Some fs') L = Some (c @ s)))"

text \<open>The log at \<open>L\<close> holds the line \<open>e\<close>.\<close>

definition logged :: "string list \<Rightarrow> string \<Rightarrow> node \<Rightarrow> bool" where
  "logged L e fs \<longleftrightarrow> (\<exists>pre post. content_at (Some fs) L = Some (pre @ e @ post))"

definition os_stat :: "node \<Rightarrow> string \<Rightarrow> exn + node" where
  "os_stat fs p =
     (if p = [] then Inl (OSError ENOENT p)
      else case stat_at (Some fs) (path_comps p) of
             Inl e \<Rightarrow> Inl (OSError e p)
           | Inr n \<Rightarrow> Inr n)"

definition os_modify :: "(node option \<Rightarrow> errno + node option) \<Rightarrow> node \<Rightarrow> string \<Rightarrow> exn + node"
  where
  "os_modify f fs p =
     (if p = [] then Inl (OSError ENOENT p)
      else case upd f (Some fs) (path_comps p) of
             Inl e \<Rightarrow> Inl (OSError e p)
           | Inr None \<Rightarrow> Inl (OSError EISDIR p)
           | Inr (Some fs') \<Rightarrow> Inr fs')"

text \<open>\<open>os.path.exists(p)\<close>: whether \<open>os.stat(p)\<close> succeeds.\<close>

definition os_path_exists :: "node \<Rightarrow> string \<Rightarrow> bool" where
  "os_path_exists fs p = (case os_stat fs p of Inl e \<Rightarrow> False | Inr n \<Rightarrow> True)"

text \<open>
  Reading in text mode with the default \<open>newline=None\<close>: a carriage return, alone or
  followed by a line feed, is returned as one line feed.
\<close>

fun universal_newlines :: "string \<Rightarrow> string" where
  "universal_newlines [] = []"
| "universal_newlines [c] = (if c = CHR 0x0D then [CHR 0x0A] else [c])"
| "universal_newlines (c # d # ds) =
     (if c = CHR 0x0D
      then (if d = CHR 0x0A then CHR 0x0A # universal_newlines ds
            else CHR 0x0A # universal_newlines (d # ds))
      else c # universal_newlines (d # ds))"

text \<open>\<open>with open(p, "r", encoding="utf-8") as f: content = f.read()\<close>.\<close>

definition os_open_read :: "node \<Rightarrow> string \<Rightarrow> exn + string" where
  "os_open_read fs p =
     (case os_stat fs p of
        Inl e \<Rightarrow> Inl e
      | Inr (Dir es) \<Rightarrow> Inl (OSError EISDIR p)
      | Inr (File content) \<Rightarrow> Inr (universal_newlines content))"

text \<open>
  \<open>with open(p, "w") as f: f.write(text)\<close> and the same in mode \<open>"a"\<close>: on POSIX the text
  is stored as it is. The directory of \<open>p\<close> must exist; the file is created when it does
  not exist.
\<close>

fun entry_write :: "string \<Rightarrow> node option \<Rightarrow> errno + node option" where
  "entry_write text (Some (Dir es)) = Inl EISDIR"
| "entry_write text (Some (File content)) = Inr (Some (File text))"
| "entry_write text None = Inr (Some (File text))"

fun entry_append :: "string \<Rightarrow> node option \<Rightarrow> errno + node option" where
  "entry_append text (Some (Dir es)) = Inl EISDIR"
| "entry_append text (Some (File content)) = Inr (Some (File (content @ text)))"
| "entry_append text None = Inr (Some (File text))"

definition os_open_write :: "node \<Rightarrow> string \<Rightarrow> string \<Rightarrow> exn + node" where
  "os_open_write fs p text = os_modify (entry_write text) fs p"

definition os_open_append :: "node \<Rightarrow> string \<Rightarrow> string \<Rightarrow> exn + node" where
  "os_open_append fs p text = os_modify (entry_append text) fs p"

text \<open>\<open>os.remove(p)\<close>: removes a regular file.\<close>

fun entry_remove :: "node option \<Rightarrow> errno + node option" where
  "entry_remove None = Inl ENOENT"
| "entry_remove (Some (Dir es)) = Inl EISDIR"
| "entry_remove (Some (File content)) = Inr None"

definition os_remove :: "node \<Rightarrow> string \<Rightarrow> exn + node" where
  "os_remove fs p = os_modify entry_remove fs p"

text \<open>
  \<open>os.makedirs(name)\<close>: creates the directory and every missing ancestor. It fails when
  the directory exists, and when an ancestor is a regular file; the error then names the
  path whose \<open>mkdir\<close> failed, given here by the number of its components.
\<close>

fun fresh_dirs :: "string list \<Rightarrow> node" where
  "fresh_dirs [] = Dir []"
| "fresh_dirs (c # cs) = Dir [(c, fresh_dirs cs)]"

fun mkdirs :: "node option \<Rightarrow> string list \<Rightarrow> (errno \<times> nat) + node" where
  "mkdirs None cs = Inr (fresh_dirs cs)"
| "mkdirs (Some n) [] = Inl (EEXIST, 0)"
| "mkdirs (Some (File content)) (c # cs) = Inl (ENOTDIR, 1)"
| "mkdirs (Some (Dir es)) (c # cs) =
     (case mkdirs (map_of es c) cs of
        Inl (e, k) \<Rightarrow> Inl (e, Suc k)
      | Inr n \<Rightarrow> Inr (Dir (AList.update c n es)))"

definition os_makedirs :: "node \<Rightarrow> string \<Rightarrow> exn + node" where
  "os_makedirs fs name =
     (if name = [] then Inl (OSError ENOENT name)
      else case mkdirs (Some fs) (path_comps name) of
             Inl (e, k) \<Rightarrow> Inl (OSError e (''/'' @ str_join ''/'' (take k (path_comps name))))
           | Inr fs' \<Rightarrow> Inr fs')"

text \<open>\<open>os.path.dirname(p)\<close>.\<close>

definition rstrip_slashes :: "string \<Rightarrow> string" where
  "rstrip_slashes s = rev (dropWhile (\<lambda>c. c = CHR ''/'') (rev s))"

definition os_path_dirname :: "string \<Rightarrow> string" where
  "os_path_dirname p =
     (let head = rev (dropWhile (\<lambda>c. c \<noteq> CHR ''/'') (rev p)) in
      if head \<noteq> [] \<and> head \<noteq> replicate (length head) CHR ''/''
      then rstrip_slashes head else head)"

text \<open>
  A well-formed tree: every name in a directory is a file name (not empty, without a
  slash, neither \<open>.\<close> nor \<open>..\<close>).
\<close>

definition valid_name :: "string \<Rightarrow> bool" where
  "valid_name name \<longleftrightarrow> name \<noteq> [] \<and> CHR ''/'' \<notin> set name \<and> name \<noteq> ''.'' \<and> name \<noteq> ''..''"

fun wf_node :: "node \<Rightarrow> bool"
  and wf_entries :: "(string \<times> node) list \<Rightarrow> bool"
  where
  "wf_node (File content) = True"
| "wf_node (Dir es) = wf_entries es"
| "wf_entries [] = True"
| "wf_entries ((name, n) # es) = (valid_name name \<and> wf_node n \<and> wf_entries es)"

text \<open>
  \<open>os.walk(top)\<close>, top down: for a directory the triple of its path, the names of its
  subdirectories and the names of its other entries, then the walk of each subdirectory
  in listing order. A \<open>top\<close> that cannot be listed yields nothing (errors of the listing
  are ignored).
\<close>

fun walk :: "string \<Rightarrow> node \<Rightarrow> (string \<times> string list \<times> string list) list"
  and walk_dirs :: "string \<Rightarrow> (string \<times> node) list \<Rightarrow> (string \<times> string list \<times> string list) list"
  where
  "walk top_path (File content) = []"
| "walk top_path (Dir es) =
     (top_path, map fst (filter (\<lambda>(name, n). case n of Dir ds \<Rightarrow> True | File x \<Rightarrow> False) es),
           map fst (filter (\<lambda>(name, n). case n of Dir ds \<Rightarrow> False | File x \<Rightarrow> True) es))
     # walk_dirs top_path es"
| "walk_dirs top_path [] = []"
| "walk_dirs top_path ((name, n) # es) =
     (case n of Dir ds \<Rightarrow> walk (os_path_join top_path [name]) n | File x \<Rightarrow> [])
     @ walk_dirs top_path es"

definition os_walk :: "node \<Rightarrow> string \<Rightarrow> (string \<times> string list \<times> string list) list" where
  "os_walk fs top_path = (case os_stat fs top_path of Inl e \<Rightarrow> [] | Inr n \<Rightarrow> walk top_path n)"

text \<open>
  A walked directory lies below the top of the walk: its path is absolute, and its
  normalized components are those of the top followed by names of directories.
\<close>

definition walked_below :: "string \<Rightarrow> string \<Rightarrow> bool" where
  "walked_below top_path root \<longleftrightarrow>
     startswith root ''/''
     \<and> (\<exists>ds. (\<forall>d\<in>set ds. valid_name d)
           \<and> normpath_loop 1 [] (str_split CHR ''/'' root)
             = normpath_loop 1 [] (str_split CHR ''/'' top_path) @ ds)"

text \<open>
  \<open>os.path.abspath(p)\<close> and \<open>os.path.relpath(path, start)\<close>; \<open>getcwd\<close> is the value of
  \<open>os.getcwd()\<close> at the call.
\<close>

definition os_path_abspath :: "string \<Rightarrow> string \<Rightarrow> string" where
  "os_path_abspath getcwd p = normpath (if startswith p ''/'' then p else os_path_join getcwd [p])"

definition os_path_relpath :: "string \<Rightarrow> string \<Rightarrow> string \<Rightarrow> exn + string" where
  "os_path_relpath getcwd path start =
     (if path = [] then Inl (ValueError ''no path specified'')
      else
        let start_list = filter (\<lambda>x. x \<noteq> []) (str_split CHR ''/'' (os_path_abspath getcwd start));
            path_list = filter (\<lambda>x. x \<noteq> []) (str_split CHR ''/'' (os_path_abspath getcwd path));
            i = length (commonprefix [start_list, path_list]);
            rel_list = replicate (length start_list - i) ''..'' @ drop i path_list
        in case rel_list of
             [] \<Rightarrow> Inr ''.''
           | r # rs \<Rightarrow> Inr (os_path_join r rs))"

section \<open>The file operations\<close>

text \<open>
  A function that can raise returns a sum, the exception on the left; a function with
  effects takes the file system and returns it beside its result, changed by whatever
  was done before an exception too.
\<close>

definition LOG_FILE :: string where
  "LOG_FILE = ''file_logger.txt''"

definition LOG_FILE_PATH :: "env \<Rightarrow> string" where
  "LOG_FILE_PATH cfg = working_directory cfg @ ''/'' @ LOG_FILE"

definition log_entry_of :: "string \<Rightarrow> string \<Rightarrow> string" where
  "log_entry_of operation filename = operation @ '': '' @ filename @ [CHR 0x0A]"

definition read_file_try :: "env \<Rightarrow> node \<Rightarrow> string \<Rightarrow> exn + string" where
  "read_file_try cfg fs filename =
     (case safe_join cfg (working_directory cfg) [filename] of
        Inl e \<Rightarrow> Inl e
      | Inr filepath \<Rightarrow> os_open_read fs filepath)"

definition read_file :: "env \<Rightarrow> node \<Rightarrow> string \<Rightarrow> exn + string" where
  "read_file cfg fs filename =
     (case read_file_try cfg fs filename of
        Inl e \<Rightarrow> Inr (''Error: '' @ str_exn e)
      | Inr content \<Rightarrow> Inr content)"

definition check_duplicate_operation :: "env \<Rightarrow> node \<Rightarrow> string \<Rightarrow> string \<Rightarrow> exn + bool" where
  "check_duplicate_operation cfg fs operation filename =
     (case read_file cfg fs LOG_FILE of
        Inl e \<Rightarrow> Inl e
      | Inr log_content \<Rightarrow> Inr (str_contains (log_entry_of operation filename) log_content))"

text \<open>
  \<open>log_operation\<close> and \<open>append_to_file\<close> call each other, and neither has a case that does
  not: \<open>append_to_file\<close> logs every successful append, the appends to the log file
  included. The interpreter ends the nesting by raising \<open>RecursionError\<close> (an \<open>Exception\<close>)
  when its call stack is full. The first argument is the number of further nested calls
  of \<open>append_to_file\<close> the stack has room for; the exception is raised at the call that
  exceeds it.
\<close>

fun log_operation :: "nat \<Rightarrow> env \<Rightarrow> node \<Rightarrow> string \<Rightarrow> string \<Rightarrow> (exn + unit) \<times> node"
  and append_to_file_try ::
    "nat \<Rightarrow> env \<Rightarrow> node \<Rightarrow> string \<Rightarrow> string \<Rightarrow> (exn + string) \<times> node"
  and append_to_file :: "nat \<Rightarrow> env \<Rightarrow> node \<Rightarrow> string \<Rightarrow> string \<Rightarrow> (exn + string) \<times> node"
  where
  "log_operation depth cfg fs operation filename =
     (case (if \<not> os_path_exists fs (LOG_FILE_PATH cfg)
            then os_open_write fs (LOG_FILE_PATH cfg) ''File Operation Logger ''
            else Inr fs) of
        Inl e \<Rightarrow> (Inl e, fs)
      | Inr fs1 \<Rightarrow>
          (case depth of
             0 \<Rightarrow> (Inl RecursionError, fs1)
           | Suc depth' \<Rightarrow>
               (case append_to_file depth' cfg fs1 LOG_FILE (log_entry_of operation filename) of
                  (Inl e, fs2) \<Rightarrow> (Inl e, fs2)
                | (Inr r, fs2) \<Rightarrow> (Inr (), fs2))))"
| "append_to_file_try depth cfg fs filename text =
     (case safe_join cfg (working_directory cfg) [filename] of
        Inl e \<Rightarrow> (Inl e, fs)
      | Inr filepath \<Rightarrow>
          (case os_open_append fs filepath text of
             Inl e \<Rightarrow> (Inl e, fs)
           | Inr fs1 \<Rightarrow>
               (case log_operation depth cfg fs1 ''append'' filename of
                  (Inl e, fs2) \<Rightarrow> (Inl e, fs2)
                | (Inr u, fs2) \<Rightarrow> (Inr ''Text appended successfully.'', fs2))))"
| "append_to_file depth cfg fs filename text =
     (case append_to_file_try depth cfg fs filename text of
        (Inl e, fs') \<Rightarrow> (Inr (''Error: '' @ str_exn e), fs')
      | (Inr r, fs') \<Rightarrow> (Inr r, fs'))"

declare log_operation.simps [simp del] append_to_file_try.simps [simp del]
  append_to_file.simps [simp del]

text \<open>
  In each operation the body of the \<open>try\<close> statement is a function of its own
  (\<open>..._try\<close>); the operation turns an exception of the body into the string
  \<open>"Error: " + str(e)\<close>.
\<close>

definition write_to_file_try :: "nat \<Rightarrow> env \<Rightarrow> node \<Rightarrow> string \<Rightarrow> string \<Rightarrow> (exn + string) \<times> node"
  where
  "write_to_file_try depth cfg fs filename text =
     (case safe_join cfg (working_directory cfg) [filename] of
        Inl e \<Rightarrow> (Inl e, fs)
      | Inr filepath \<Rightarrow>
          (let directory = os_path_dirname filepath in
           case (if \<not> os_path_exists fs directory then os_makedirs fs directory else Inr fs) of
             Inl e \<Rightarrow> (Inl e, fs)
           | Inr fs1 \<Rightarrow>
               (case os_open_write fs1 filepath text of
                  Inl e \<Rightarrow> (Inl e, fs1)
                | Inr fs2 \<Rightarrow>
                    (case log_operation depth cfg fs2 ''write'' filename of
                       (Inl e, fs3) \<Rightarrow> (Inl e, fs3)
                     | (Inr u, fs3) \<Rightarrow> (Inr ''File written to successfully.'', fs3)))))"

definition write_to_file :: "nat \<Rightarrow> env \<Rightarrow> node \<Rightarrow> string \<Rightarrow> string \<Rightarrow> (exn + string) \<times> node"
  where
  "write_to_file depth cfg fs filename text =
     (case check_duplicate_operation cfg fs ''write'' filename of
        Inl e \<Rightarrow> (Inl e, fs)
      | Inr True \<Rightarrow> (Inr ''Error: File has already been updated.'', fs)
      | Inr False \<Rightarrow>
          (case write_to_file_try depth cfg fs filename text of
             (Inl e, fs') \<Rightarrow> (Inr (''Error: '' @ str_exn e), fs')
           | (Inr r, fs') \<Rightarrow> (Inr r, fs')))"

definition delete_file_try :: "nat \<Rightarrow> env \<Rightarrow> node \<Rightarrow> string \<Rightarrow> (exn + string) \<times> node" where
  "delete_file_try depth cfg fs filename =
     (case safe_join cfg (working_directory cfg) [filename] of
        Inl e \<Rightarrow> (Inl e, fs)
      | Inr filepath \<Rightarrow>
          (case os_remove fs filepath of
             Inl e \<Rightarrow> (Inl e, fs)
           | Inr fs1 \<Rightarrow>
               (case log_operation depth cfg fs1 ''delete'' filename of
                  (Inl e, fs2) \<Rightarrow> (Inl e, fs2)
                | (Inr u, fs2) \<Rightarrow> (Inr ''File deleted successfully.'', fs2))))"

definition delete_file :: "nat \<Rightarrow> env \<Rightarrow> node \<Rightarrow> string \<Rightarrow> (exn + string) \<times> node" where
  "delete_file depth cfg fs filename =
     (case check_duplicate_operation cfg fs ''delete'' filename of
        Inl e \<Rightarrow> (Inl e, fs)
      | Inr True \<Rightarrow> (Inr ''Error: File has already been deleted.'', fs)
      | Inr False \<Rightarrow>
          (case delete_file_try depth cfg fs filename of
             (Inl e, fs') \<Rightarrow> (Inr (''Error: '' @ str_exn e), fs')
           | (Inr r, fs') \<Rightarrow> (Inr r, fs')))"

text \<open>
  \<open>search_files\<close>: the loop over the walk appends one relative path per file whose name
  does not start with a dot; an exception of \<open>os.path.relpath\<close> ends it.
\<close>

fun collect :: "(exn + 'a) list \<Rightarrow> exn + 'a list" where
  "collect [] = Inr []"
| "collect (Inl e # rs) = Inl e"
| "collect (Inr x # rs) = (case collect rs of Inl e \<Rightarrow> Inl e | Inr xs \<Rightarrow> Inr (x # xs))"

definition search_files :: "env \<Rightarrow> node \<Rightarrow> string \<Rightarrow> exn + string list" where
  "search_files cfg fs directory =
     (case (if directory = [] \<or> directory = ''/'' then Inr (working_directory cfg)
            else safe_join cfg (working_directory cfg) [directory]) of
        Inl e \<Rightarrow> Inl e
      | Inr search_directory \<Rightarrow>
          collect
            (concat
               (map (\<lambda>(root, dirs, files).
                       map (\<lambda>file. os_path_relpath (cwd cfg) (os_path_join root [file])
                                     (working_directory cfg))
                         (filter (\<lambda>file. \<not> startswith file ''.'') files))
                  (os_walk fs search_directory))))"

section \<open>Facts about the path functions\<close>

lemma common_loop_lcp:
  "(s1 :: ('a::linorder) list) \<le> s2 \<Longrightarrow> common_loop s1 s2 = longest_common_prefix s1 s2"
proof (induction s1 s2 rule: common_loop.induct)
  case (3 c s1 d s2)
  show ?case
  proof (cases "c = d")
    case True
    with 3 show ?thesis by auto
  next
    case False
    then show ?thesis by simp
  qed
qed simp_all

lemma lcp_commute: "longest_common_prefix a b = longest_common_prefix b a"
  by (induction a b rule: longest_common_prefix.induct) auto

lemma commonprefix_pair: "commonprefix [a, b] = longest_common_prefix a b"
proof (cases "a \<le> b")
  case True
  then have "Min (set [a, b]) = a" "Max (set [a, b]) = b"
    by (simp_all add: min_def max_def)
  with True show ?thesis by (simp add: commonprefix_def common_loop_lcp)
next
  case False
  then have le: "b \<le> a" by simp
  then have "Min (set [a, b]) = b" "Max (set [a, b]) = a"
    by (simp_all add: min_def max_def)
  with le show ?thesis
    by (simp add: commonprefix_def common_loop_lcp lcp_commute [of a b])
qed

lemma lcp_eq_left_iff: "longest_common_prefix a b = a \<longleftrightarrow> prefix a b"
proof
  assume "longest_common_prefix a b = a"
  then show "prefix a b"
    by (metis longest_common_prefix_prefix2)
next
  assume "prefix a b"
  then show "longest_common_prefix a b = a"
    by (metis longest_common_prefix_max_prefix longest_common_prefix_prefix1 prefix_order.eq_iff
        prefix_order.refl)
qed

text \<open>
  The guard of \<open>safe_join\<close> is a test on strings: the path is let through exactly when
  the text of \<open>base\<close> is a leading part of the text of the normalized path.
\<close>

lemma safe_join_restricted:
  "restricted cfg \<Longrightarrow>
   safe_join cfg base paths =
     (if prefix base (normpath (os_path_join base paths))
      then Inr (normpath (os_path_join base paths))
      else Inl (ValueError ''Attempted to access outside of working directory.''))"
  by (simp add: safe_join_def Let_def commonprefix_pair lcp_eq_left_iff)


text \<open>
  C1. The claim says that \<open>safe_join\<close>, with the restriction on, rejects every resolution
  that lands outside the root. The guard compares the texts of the two paths, so a
  sibling of the root whose name begins with the root's name passes it: with the root
  \<open>/work/ws\<close> the file name \<open>../ws_evil/x\<close> is resolved to \<open>/work/ws_evil/x\<close>, which is
  not below the root, and no error is raised.
\<close>

theorem safe_join_sibling_prefix_escape:
  "safe_join \<lparr>restricted = True, working_directory = ''/work/ws'', cwd = ''/''\<rparr>
       ''/work/ws'' [''../ws_evil/x'']
     = Inr ''/work/ws_evil/x''
   \<and> \<not> prefix (path_comps ''/work/ws'') (path_comps ''/work/ws_evil/x'')"
  by (simp add: safe_join_restricted os_path_join_def startswith_def endswith_def
      normpath_def initial_slashes_of_def path_comps_def)

section \<open>Facts about \<open>split_file\<close>\<close>

lemma nat_int_sub: "nat (int e - int s) = e - s"
  by arith

lemma py_slice_nat: "py_slice xs (int s) (int e) = take (e - s) (drop s xs)"
  by (auto simp: py_slice_def Let_def min_def nat_int_sub)

lemma chunk_take:
  assumes "0 \<le> ov" "ov < m" "s < length content"
  shows "(if int s + m + ov < int (length content)
          then py_slice content (int s) (int s + m + ov)
          else py_slice content (int s) (int (length content)))
         = take (nat (m + ov)) (drop s content)"
proof -
  have e: "int s + m + ov = int (s + nat (m + ov))" using assms by simp
  show ?thesis
    unfolding e py_slice_nat using assms by (auto simp: nat_add_distrib)
qed

text \<open>
  The loop from the offset \<open>s\<close>, for a stride that is positive: it ends, chunk \<open>k\<close> starts
  at \<open>s + k * (m - ov)\<close> inside the content and holds the next \<open>m + ov\<close> characters (fewer
  at the end of the content), every index from \<open>s\<close> on lies in some chunk, and the loop
  goes on until the offset is outside the content.
\<close>

lemma split_file_loop_nat:
  assumes "0 \<le> ov" "ov < m"
  shows "\<exists>chunks. split_file_loop content m ov (int s) = Some chunks
     \<and> (\<forall>k<length chunks. s + k * nat (m - ov) < length content
            \<and> chunks ! k = take (nat (m + ov)) (drop (s + k * nat (m - ov)) content))
     \<and> (\<forall>i. s \<le> i \<and> i < length content \<longrightarrow>
            (\<exists>k<length chunks. s + k * nat (m - ov) \<le> i
                \<and> i < s + k * nat (m - ov) + length (chunks ! k)))
     \<and> length content \<le> s + length chunks * nat (m - ov)"
proof (induction "length content - s" arbitrary: s rule: less_induct)
  case less
  define st where "st = nat (m - ov)"
  have st: "0 < st" "int st = m - ov" using assms by (simp_all add: st_def)
  show ?case
  proof (cases "s < length content")
    case False
    then have "split_file_loop content m ov (int s) = Some []"
      by (subst split_file_loop.simps) simp
    with False show ?thesis by simp
  next
    case True
    have "length content - (s + st) < length content - s" using True st by simp
    from less[OF this] obtain rest where
      r: "split_file_loop content m ov (int (s + st)) = Some rest"
      and rk: "\<And>k. k < length rest \<Longrightarrow> s + st + k * st < length content
            \<and> rest ! k = take (nat (m + ov)) (drop (s + st + k * st) content)"
      and rc: "\<And>i. s + st \<le> i \<Longrightarrow> i < length content \<Longrightarrow>
            (\<exists>k<length rest. s + st + k * st \<le> i \<and> i < s + st + k * st + length (rest ! k))"
      and rl: "length content \<le> s + st + length rest * st"
      unfolding st_def by blast
    define c where "c = take (nat (m + ov)) (drop s content)"
    have step: "int s + (m - ov) = int (s + st)" using st by simp
    have eq: "split_file_loop content m ov (int s) = Some (c # rest)"
      apply (subst split_file_loop.simps)
      using True r chunk_take[OF assms True] by (simp add: step c_def)
    have P1: "\<forall>k<length (c # rest). s + k * st < length content
            \<and> (c # rest) ! k = take (nat (m + ov)) (drop (s + k * st) content)"
    proof (intro allI impI)
      fix k assume "k < length (c # rest)"
      then show "s + k * st < length content
            \<and> (c # rest) ! k = take (nat (m + ov)) (drop (s + k * st) content)"
        using True rk by (cases k) (auto simp: c_def add.assoc)
    qed
    have P2: "\<forall>i. s \<le> i \<and> i < length content \<longrightarrow>
            (\<exists>k<length (c # rest). s + k * st \<le> i \<and> i < s + k * st + length ((c # rest) ! k))"
    proof (intro allI impI)
      fix i assume i: "s \<le> i \<and> i < length content"
      show "\<exists>k<length (c # rest). s + k * st \<le> i \<and> i < s + k * st + length ((c # rest) ! k)"
      proof (cases "i < s + st")
        case True
        have "st \<le> nat (m + ov)" using assms by (simp add: st_def)
        then have "i < s + length c" using True i by (simp add: c_def min_def)
        then show ?thesis using i by (intro exI[of _ 0]) simp
      next
        case False
        then obtain k where "k < length rest" "s + st + k * st \<le> i"
            "i < s + st + k * st + length (rest ! k)"
          using rc[of i] i by auto
        then show ?thesis by (intro exI[of _ "Suc k"]) (simp add: add.assoc)
      qed
    qed
    have P3: "length content \<le> s + length (c # rest) * st" using rl by simp
    show ?thesis using eq P1 P2 P3 unfolding st_def by blast
  qed
qed

text \<open>
  C6. For every content and every \<open>overlap\<close> and \<open>max_length\<close> with
  \<open>0 \<le> overlap < max_length\<close>, \<open>split_file\<close> ends and returns its chunks; chunk \<open>k\<close> starts at
  the offset \<open>k * (max_length - overlap)\<close>, which lies inside the content, so the starts
  advance by \<open>max_length - overlap\<close>; every index of the content lies in a chunk, so the
  chunks cover \<open>[0, content_length)\<close>; the first offset past the last chunk is outside
  the content; and an empty content gives no chunk.
\<close>

theorem split_file_total_and_covering:
  assumes "0 \<le> overlap" "overlap < max_length"
  shows "\<exists>chunks. split_file content max_length overlap = Some chunks
     \<and> (\<forall>k<length chunks. k * nat (max_length - overlap) < length content
            \<and> chunks ! k = take (nat (max_length + overlap))
                               (drop (k * nat (max_length - overlap)) content))
     \<and> (\<forall>i<length content. \<exists>k<length chunks. k * nat (max_length - overlap) \<le> i
                \<and> i < k * nat (max_length - overlap) + length (chunks ! k))
     \<and> length content \<le> length chunks * nat (max_length - overlap)
     \<and> (content = [] \<longrightarrow> chunks = [])"
proof -
  from split_file_loop_nat[OF assms, of content 0] obtain chunks where
    c: "split_file_loop content max_length overlap 0 = Some chunks"
    and k: "\<forall>k<length chunks. k * nat (max_length - overlap) < length content
            \<and> chunks ! k = take (nat (max_length + overlap))
                               (drop (k * nat (max_length - overlap)) content)"
    and i: "\<forall>i<length content. \<exists>k<length chunks. k * nat (max_length - overlap) \<le> i
                \<and> i < k * nat (max_length - overlap) + length (chunks ! k)"
    and l: "length content \<le> length chunks * nat (max_length - overlap)"
    by auto
  have "content = [] \<longrightarrow> chunks = []"
  proof
    assume "content = []"
    then have "split_file_loop content max_length overlap 0 = Some []"
      by (subst split_file_loop.simps) simp
    with c show "chunks = []" by simp
  qed
  with c k i l show ?thesis unfolding split_file_def by blast
qed

text \<open>
  C6, at a concrete input: a content of seven characters, \<open>max_length = 3\<close> and
  \<open>overlap = 1\<close> give four chunks, and the second one starts at offset 2.
\<close>

theorem split_file_total_and_covering_witness:
  "\<exists>chunks. split_file ''abcdefg'' 3 1 = Some chunks
     \<and> length chunks = 4 \<and> chunks ! 1 = ''cdef'' \<and> chunks ! 3 = ''g''"
proof -
  have a: "(0::int) \<le> 1" and b: "(1::int) < 3" by simp_all
  from split_file_total_and_covering[OF a b, of "''abcdefg''"] obtain chunks where
    c: "split_file ''abcdefg'' 3 1 = Some chunks"
    and k: "\<forall>k<length chunks. k * nat (3 - 1) < length ''abcdefg''
            \<and> chunks ! k = take (nat (3 + 1)) (drop (k * nat (3 - 1)) ''abcdefg'')"
    and l: "length ''abcdefg'' \<le> length chunks * nat (3 - 1)"
    by blast
  have l4: "length chunks \<le> 4"
  proof (rule ccontr)
    assume "\<not> length chunks \<le> 4"
    then have "4 < length chunks" by simp
    with k have "4 * nat (3 - 1) < length ''abcdefg''" by blast
    then show False by simp
  qed
  from l have "4 \<le> length chunks" by simp
  with l4 have len: "length chunks = 4" by simp
  from k len have "chunks ! 1 = take (nat (3 + 1)) (drop (1 * nat (3 - 1)) ''abcdefg'')"
    by simp
  then have c1: "chunks ! 1 = ''cdef''" by simp
  from k len have "chunks ! 3 = take (nat (3 + 1)) (drop (3 * nat (3 - 1)) ''abcdefg'')"
    by simp
  then have c3: "chunks ! 3 = ''g''" by simp
  from c len c1 c3 show ?thesis by blast
qed

text \<open>
  C5. The claim says that a content of length 4500 with \<open>max_length = 4000\<close> and
  \<open>overlap = 200\<close> gives two chunks of at most \<open>max_length\<close> characters that share the
  characters \<open>[3800, 4000)\<close>. The code gives two chunks, the second from offset 3800, but
  the first is \<open>content[0:4200]\<close>: it has 4200 characters, and the two chunks share the
  characters \<open>[3800, 4200)\<close>.
\<close>

theorem split_file_4500:
  assumes "length content = 4500"
  shows "split_file content 4000 200 = Some [take 4200 content, drop 3800 content]"
proof -
  have a: "split_file_loop content 4000 200 7600 = Some []"
    by (subst split_file_loop.simps) (simp add: assms)
  have b: "split_file_loop content 4000 200 3800 = Some [drop 3800 content]"
    apply (subst split_file_loop.simps)
    using py_slice_nat[of content 3800 4500]
    apply (simp add: assms a)
    done
  show ?thesis
    unfolding split_file_def
    apply (subst split_file_loop.simps)
    using py_slice_nat[of content 0 4200]
    apply (simp add: assms b)
    done
qed

theorem split_file_4500_witness:
  "split_file (replicate 4500 CHR ''a'') 4000 200
     = Some [replicate 4200 CHR ''a'', replicate 700 CHR ''a'']
   \<and> length (replicate 4200 CHR ''a'') > 4000"
  using split_file_4500[of "replicate 4500 CHR ''a''"] by simp

section \<open>Facts about error messages and the log check\<close>

lemma hex_digit_not_newline: "hex_digit n \<noteq> CHR 0x0A"
proof -
  have "hex_digit n \<in> set ''0123456789abcdef''"
    unfolding hex_digit_def by (rule nth_mem) simp
  then show ?thesis by auto
qed

lemma repr_char_no_newline: "q \<noteq> CHR 0x0A \<Longrightarrow> CHR 0x0A \<notin> set (repr_char q c)"
  using hex_digit_not_newline[of "of_char c div 16"] hex_digit_not_newline[of "of_char c"]
  by (auto simp: repr_char_def Let_def)

lemma py_repr_no_newline: "CHR 0x0A \<notin> set (py_repr s)"
  by (auto simp: py_repr_def Let_def repr_char_no_newline)

lemma errno_text_no_newline: "CHR 0x0A \<notin> set (errno_text e)"
  by (cases e) simp_all

lemma str_exn_OSError_no_newline: "CHR 0x0A \<notin> set (str_exn (OSError e p))"
  by (simp add: errno_text_no_newline py_repr_no_newline)

lemma os_stat_error: "os_stat fs p = Inl e \<Longrightarrow> \<exists>en. e = OSError en p"
  by (auto simp: os_stat_def split: if_splits sum.splits)

lemma os_open_read_error: "os_open_read fs p = Inl e \<Longrightarrow> \<exists>en. e = OSError en p"
  by (auto simp: os_open_read_def split: sum.splits node.splits dest: os_stat_error)

lemma safe_join_error:
  "safe_join cfg base paths = Inl e \<Longrightarrow>
     e = ValueError ''Attempted to access outside of working directory.''"
  by (auto simp: safe_join_def Let_def split: if_splits)

text \<open>No message of an exception that ends \<open>read_file\<close> holds a line feed.\<close>

lemma read_file_try_error_no_newline:
  assumes "read_file_try cfg fs filename = Inl e"
  shows "CHR 0x0A \<notin> set (str_exn e)"
proof (cases "safe_join cfg (working_directory cfg) [filename]")
  case (Inl e')
  with assms have "e = ValueError ''Attempted to access outside of working directory.''"
    by (auto simp: read_file_try_def dest: safe_join_error)
  then show ?thesis by simp
next
  case (Inr p)
  with assms obtain en where "e = OSError en p"
    by (auto simp: read_file_try_def dest: os_open_read_error)
  then show ?thesis by (simp only: str_exn_OSError_no_newline not_False_eq_True)
qed

lemma str_contains_sublist: "str_contains needle hay \<longleftrightarrow> sublist needle hay"
  by (induction hay) (auto simp: sublist_Cons_right)

lemma str_contains_set: "str_contains needle hay \<Longrightarrow> set needle \<subseteq> set hay"
  by (auto simp: str_contains_sublist dest: set_mono_sublist)

lemma log_entry_has_newline: "CHR 0x0A \<in> set (log_entry_of operation filename)"
  by (simp add: log_entry_of_def)

lemma no_newline_no_entry:
  "CHR 0x0A \<notin> set hay \<Longrightarrow> \<not> str_contains (log_entry_of operation filename) hay"
  using log_entry_has_newline str_contains_set by blast


lemma check_duplicate_operation_failed_read:
  assumes "read_file_try cfg fs LOG_FILE = Inl e"
  shows "check_duplicate_operation cfg fs operation filename = Inr False"
proof -
  have "CHR 0x0A \<notin> set (''Error: '' @ str_exn e)"
    using read_file_try_error_no_newline[OF assms] by simp
  then have "\<not> str_contains (log_entry_of operation filename) (''Error: '' @ str_exn e)"
    by (rule no_newline_no_entry)
  with assms show ?thesis
    by (simp add: check_duplicate_operation_def read_file_def)
qed

lemma os_open_read_missing:
  "\<not> os_path_exists fs p \<Longrightarrow> \<exists>en. os_open_read fs p = Inl (OSError en p)"
  by (auto simp: os_path_exists_def os_open_read_def split: sum.splits dest: os_stat_error)

text \<open>
  C9. When the log file does not exist, the read that \<open>check_duplicate_operation\<close>
  delegates to returns an error string, that string does not contain the entry line
  \<open>"<kind>: <filename>\n"\<close>, and \<open>check_duplicate_operation\<close> returns \<open>False\<close>, for every kind
  and every file name. The log file is the file \<open>read_file(LOG_FILE)\<close> opens: the path
  \<open>safe_join\<close> resolves \<open>LOG_FILE\<close> to.
\<close>

theorem missing_log_has_no_entries:
  assumes "safe_join cfg (working_directory cfg) [LOG_FILE] = Inr p"
    and "\<not> os_path_exists fs p"
  shows "\<exists>msg. read_file cfg fs LOG_FILE = Inr (''Error: '' @ msg)
           \<and> \<not> str_contains (log_entry_of kind filename) (''Error: '' @ msg)
           \<and> check_duplicate_operation cfg fs kind filename = Inr False"
proof -
  from os_open_read_missing[OF assms(2)] obtain en where
    "os_open_read fs p = Inl (OSError en p)" by blast
  with assms(1) have t: "read_file_try cfg fs LOG_FILE = Inl (OSError en p)"
    by (simp add: read_file_try_def)
  then have r: "read_file cfg fs LOG_FILE = Inr (''Error: '' @ str_exn (OSError en p))"
    by (simp add: read_file_def)
  have "CHR 0x0A \<notin> set (''Error: '' @ str_exn (OSError en p))"
    using read_file_try_error_no_newline[OF t] by simp
  then have "\<not> str_contains (log_entry_of kind filename) (''Error: '' @ str_exn (OSError en p))"
    by (rule no_newline_no_entry)
  with r check_duplicate_operation_failed_read[OF t] show ?thesis by blast
qed

text \<open>
  C9, at a concrete input: an empty workspace \<open>/w\<close>, where \<open>file_logger.txt\<close> does not
  exist.
\<close>

theorem missing_log_has_no_entries_witness:
  "check_duplicate_operation \<lparr>restricted = True, working_directory = ''/w'', cwd = ''/''\<rparr>
     (Dir [(''w'', Dir [])]) ''write'' ''a.txt'' = Inr False"
proof -
  let ?cfg = "\<lparr>restricted = True, working_directory = ''/w'', cwd = ''/''\<rparr>"
  have a: "safe_join ?cfg (working_directory ?cfg) [LOG_FILE] = Inr ''/w/file_logger.txt''"
    by (simp add: safe_join_restricted LOG_FILE_def os_path_join_def startswith_def
        endswith_def normpath_def initial_slashes_of_def)
  have b: "\<not> os_path_exists (Dir [(''w'', Dir [])]) ''/w/file_logger.txt''"
    by (simp add: os_path_exists_def os_stat_def path_comps_def)
  from missing_log_has_no_entries[OF a b, of "''write''" "''a.txt''"] show ?thesis by blast
qed

section \<open>Exceptions at the boundary of the operations\<close>


lemma read_file_result:
  "read_file cfg fs filename =
     (case read_file_try cfg fs filename of
        Inl e \<Rightarrow> Inr (''Error: '' @ str_exn e) | Inr content \<Rightarrow> Inr content)"
  by (simp add: read_file_def)

lemma log_operation_cases:
  obtains e fs' where "log_operation depth cfg fs operation filename = (Inl e, fs')"
  | fs' where "log_operation depth cfg fs operation filename = (Inr (), fs')"
  by (cases "log_operation depth cfg fs operation filename") (auto elim: sumE)

lemma append_to_file_try_result:
  "append_to_file_try depth cfg fs filename text = (Inr r, fs')
     \<Longrightarrow> r = ''Text appended successfully.''"
  by (auto simp: append_to_file_try.simps split: sum.splits prod.splits)



lemma append_to_file_returns:
  "\<exists>msg fs'. append_to_file depth cfg fs filename text = (Inr msg, fs')
      \<and> (msg = ''Text appended successfully.'' \<or> startswith msg ''Error: '')"
proof (cases "append_to_file_try depth cfg fs filename text")
  case (Pair r fs')
  then show ?thesis
    by (cases r)
      (auto simp: append_to_file.simps startswith_def dest: append_to_file_try_result)
qed



lemma collect_error: "collect rs = Inl e \<Longrightarrow> Inl e \<in> set rs"
  by (induction rs rule: collect.induct) (auto split: sum.splits)



section \<open>The recursion between \<open>log_operation\<close> and \<open>append_to_file\<close>\<close>

lemma safe_join_w_log:
  "safe_join \<lparr>restricted = True, working_directory = ''/w'', cwd = ''/''\<rparr> ''/w'' [''file_logger.txt'']
     = Inr ''/w/file_logger.txt''"
  by (simp add: safe_join_restricted os_path_join_def startswith_def
      endswith_def normpath_def initial_slashes_of_def)

lemma safe_join_w_a:
  "safe_join \<lparr>restricted = True, working_directory = ''/w'', cwd = ''/''\<rparr> ''/w'' [''a.txt'']
     = Inr ''/w/a.txt''"
  by (simp add: safe_join_restricted os_path_join_def startswith_def
      endswith_def normpath_def initial_slashes_of_def)

lemma path_comps_w_log: "path_comps ''/w/file_logger.txt'' = [''w'', ''file_logger.txt'']"
  by (simp add: path_comps_def)

lemma path_comps_w_a: "path_comps ''/w/a.txt'' = [''w'', ''a.txt'']"
  by (simp add: path_comps_def)

text \<open>
  In the workspace \<open>/w\<close> holding \<open>a.txt\<close> and the log file: an append to the log file
  with room for \<open>d\<close> nested calls leaves the text followed by \<open>d\<close> lines
  \<open>append: file_logger.txt\<close> in the log.
\<close>

lemma append_to_log_nested:
  "snd (append_to_file d \<lparr>restricted = True, working_directory = ''/w'', cwd = ''/''\<rparr>
          (Dir [(''w'', Dir [(''a.txt'', File x), (''file_logger.txt'', File c)])])
          LOG_FILE t)
   = Dir [(''w'', Dir [(''a.txt'', File x),
            (''file_logger.txt'',
             File (c @ t @ concat (replicate d (log_entry_of ''append'' LOG_FILE))))])]"
proof (induction d arbitrary: c t)
  case 0
  show ?case
    by (simp add: append_to_file.simps append_to_file_try.simps log_operation.simps
        safe_join_w_log os_open_append_def os_modify_def path_comps_w_log
        os_path_exists_def os_stat_def LOG_FILE_PATH_def LOG_FILE_def)
next
  case (Suc d)
  let ?cfg = "\<lparr>restricted = True, working_directory = ''/w'', cwd = ''/''\<rparr>"
  let ?fs1 = "Dir [(''w'', Dir [(''a.txt'', File x), (''file_logger.txt'', File (c @ t))])]"
  obtain r fs' where
    a: "append_to_file d ?cfg ?fs1 ''file_logger.txt'' (log_entry_of ''append'' ''file_logger.txt'')
          = (r, fs')"
    by (cases "append_to_file d ?cfg ?fs1 ''file_logger.txt''
                 (log_entry_of ''append'' ''file_logger.txt'')")
  from Suc[of "c @ t" "log_entry_of ''append'' LOG_FILE"] a
  have fs': "fs' = Dir [(''w'', Dir [(''a.txt'', File x),
            (''file_logger.txt'',
             File (c @ t @ concat (replicate (Suc d) (log_entry_of ''append'' LOG_FILE))))])]"
    by (simp add: LOG_FILE_def)
  show ?case
    apply (subst append_to_file.simps)
    apply (subst append_to_file_try.simps)
    apply (subst log_operation.simps)
    using a fs'
    apply (cases r)
     apply (simp_all add: safe_join_w_log os_open_append_def os_modify_def path_comps_w_log
        os_path_exists_def os_stat_def LOG_FILE_PATH_def LOG_FILE_def)
    done
qed

text \<open>
  C2. The claim says that the recursion between \<open>log_operation\<close> and \<open>append_to_file\<close>
  reaches a base case, so that a call makes a bounded number of appends to the log. The
  code has no such case: in an empty workspace \<open>/w\<close>, \<open>append_to_file("a.txt", "x")\<close> with
  room for \<open>d + 1\<close> nested calls writes the entry \<open>append: a.txt\<close> and then \<open>d\<close> entries
  \<open>append: file_logger.txt\<close>, one for each nested call the call stack has room for. Only
  the \<open>RecursionError\<close> of the interpreter, which the handler of the innermost
  \<open>append_to_file\<close> turns into a string, ends the nesting.
\<close>

theorem append_to_file_logs_once_per_stack_frame:
  "append_to_file (Suc d) \<lparr>restricted = True, working_directory = ''/w'', cwd = ''/''\<rparr>
      (Dir [(''w'', Dir [])]) ''a.txt'' ''x''
   = (Inr ''Text appended successfully.'',
      Dir [(''w'', Dir [(''a.txt'', File ''x''),
             (''file_logger.txt'',
              File (''File Operation Logger '' @ log_entry_of ''append'' ''a.txt''
                    @ concat (replicate d (log_entry_of ''append'' LOG_FILE))))])])"
proof -
  let ?cfg = "\<lparr>restricted = True, working_directory = ''/w'', cwd = ''/''\<rparr>"
  let ?fs1 = "Dir [(''w'', Dir [(''a.txt'', File ''x''),
                 (''file_logger.txt'', File ''File Operation Logger '')])]"
  obtain r fs' where a: "append_to_file d ?cfg ?fs1 LOG_FILE (log_entry_of ''append'' ''a.txt'')
      = (r, fs')"
    by (cases "append_to_file d ?cfg ?fs1 LOG_FILE (log_entry_of ''append'' ''a.txt'')")
  from append_to_file_returns[of d ?cfg ?fs1 LOG_FILE "log_entry_of ''append'' ''a.txt''"] a
  obtain msg where r: "r = Inr msg" by auto
  from append_to_log_nested[of d "''x''" "''File Operation Logger ''"
      "log_entry_of ''append'' ''a.txt''"] a
  have fs': "fs' = Dir [(''w'', Dir [(''a.txt'', File ''x''),
             (''file_logger.txt'',
              File (''File Operation Logger '' @ log_entry_of ''append'' ''a.txt''
                    @ concat (replicate d (log_entry_of ''append'' LOG_FILE))))])]"
    by simp
  show ?thesis
    apply (subst append_to_file.simps)
    apply (subst append_to_file_try.simps)
    apply (subst log_operation.simps)
    using a r fs'
    apply (simp add: safe_join_w_a os_open_append_def os_open_write_def os_modify_def
        path_comps_w_a path_comps_w_log os_path_exists_def os_stat_def LOG_FILE_PATH_def
        LOG_FILE_def)
    done
qed

section \<open>Facts about the file system\<close>

lemma entry_at_None [simp]: "entry_at None cs = None"
  by (cases cs) auto

lemma stat_at_entry_at:
  "stat_at x cs = Inr n \<longleftrightarrow> entry_at x cs = Some n"
  by (induction x cs rule: stat_at.induct) auto

lemma entry_at_File_Cons [simp]: "entry_at (Some (File content)) cs = (if cs = [] then Some (File content) else None)"
  by (cases cs) auto

lemma file_change_write: "file_change (entry_write text)"
  unfolding file_change_def
proof (intro conjI allI)
  fix x es show "entry_write text x \<noteq> Inr (Some (Dir es))"
    by (cases "(text, x)" rule: entry_write.cases) auto
qed simp

lemma file_change_append: "file_change (entry_append text)"
  unfolding file_change_def
proof (intro conjI allI)
  fix x es show "entry_append text x \<noteq> Inr (Some (Dir es))"
    by (cases "(text, x)" rule: entry_append.cases) auto
qed simp

lemma file_change_remove: "file_change entry_remove"
  unfolding file_change_def
proof (intro conjI allI)
  fix x es show "entry_remove x \<noteq> Inr (Some (Dir es))"
    by (cases x rule: entry_remove.cases) auto
qed simp

lemma map_of_update_same: "map_of (AList.update c n es) c = Some n"
  by (simp add: update_conv')

lemma map_of_update_other: "d \<noteq> c \<Longrightarrow> map_of (AList.update c n es) d = map_of es d"
  by (simp add: update_conv')

lemma map_of_delete_same: "map_of (AList.delete c es) c = None"
  by (simp add: delete_conv')

lemma map_of_delete_other: "d \<noteq> c \<Longrightarrow> map_of (AList.delete c es) d = map_of es d"
  by (simp add: delete_conv')

text \<open>The entry at the changed path is what \<open>f\<close> made of the entry that was there.\<close>

lemma upd_entry_same:
  "upd f x cs = Inr y \<Longrightarrow> f (entry_at x cs) = Inr (entry_at y cs)"
proof (induction f x cs arbitrary: y rule: upd.induct)
  case (4 f es c cs)
  show ?case
  proof (cases "upd f (map_of es c) cs")
    case (Inl e)
    with 4(2) show ?thesis by simp
  next
    case (Inr z)
    from 4(1)[OF Inr] have ih: "f (entry_at (map_of es c) cs) = Inr (entry_at z cs)" .
    show ?thesis
    proof (cases z)
      case None
      with Inr 4(2) have "y = Some (Dir (AList.delete c es))" by simp
      with ih None show ?thesis by (simp add: map_of_delete_same)
    next
      case (Some n)
      with Inr 4(2) have "y = Some (Dir (AList.update c n es))" by simp
      with ih Some show ?thesis by (simp add: map_of_update_same)
    qed
  qed
qed simp_all

text \<open>Nothing else changes: not the content of another file, not what is a directory.\<close>

lemma upd_entry_other:
  "file_change f \<Longrightarrow> upd f x cs = Inr y \<Longrightarrow> ds \<noteq> cs \<Longrightarrow>
     content_at y ds = content_at x ds \<and> dir_at y ds = dir_at x ds"
proof (induction f x cs arbitrary: y ds rule: upd.induct)
  case (1 f x)
  from 1(3) obtain d ds' where ds: "ds = d # ds'" by (cases ds) auto
  from 1(2) have fx: "f x = Inr y" by simp
  have nx: "x \<noteq> Some (Dir es)" for es
  proof
    assume "x = Some (Dir es)"
    with fx have "f (Some (Dir es)) = Inr y" by simp
    with 1(1) show False unfolding file_change_def by blast
  qed
  have ny: "y \<noteq> Some (Dir es)" for es
  proof
    assume "y = Some (Dir es)"
    with fx have "f x = Inr (Some (Dir es))" by simp
    with 1(1) show False unfolding file_change_def by blast
  qed
  have ex: "entry_at x ds = None"
  proof (cases x)
    case (Some n)
    with nx show ?thesis unfolding ds by (cases n) auto
  qed simp
  have ey: "entry_at y ds = None"
  proof (cases y)
    case (Some n)
    with ny show ?thesis unfolding ds by (cases n) auto
  qed simp
  from ex ey show ?case by (simp add: content_at_def dir_at_def)
next
  case (4 f es c cs)
  show ?case
  proof (cases "upd f (map_of es c) cs")
    case (Inl e)
    with 4(3) show ?thesis by simp
  next
    case (Inr z)
    define es' where "es' = (case z of None \<Rightarrow> AList.delete c es | Some n \<Rightarrow> AList.update c n es)"
    from Inr 4(3) have y: "y = Some (Dir es')"
      by (cases z) (simp_all add: es'_def)
    have same: "map_of es' c = z"
      by (cases z) (simp_all add: es'_def map_of_delete_same map_of_update_same)
    have other: "\<And>d. d \<noteq> c \<Longrightarrow> map_of es' d = map_of es d"
      by (cases z) (simp_all add: es'_def map_of_delete_other map_of_update_other)
    show ?thesis
    proof (cases ds)
      case Nil
      with y show ?thesis by (simp add: content_at_def dir_at_def)
    next
      case (Cons d ds')
      show ?thesis
      proof (cases "d = c")
        case True
        with Cons 4(4) have "ds' \<noteq> cs" by simp
        from 4(1)[OF 4(2) Inr this] show ?thesis
          using y Cons True same by (simp add: content_at_def dir_at_def)
      next
        case False
        with y Cons other show ?thesis by (simp add: content_at_def dir_at_def)
      qed
    qed
  qed
qed simp_all

lemma upd_dir_same:
  assumes "file_change f" "upd f x cs = Inr y"
  shows "dir_at y cs = dir_at x cs"
proof -
  from upd_entry_same[OF assms(2)] have e: "f (entry_at x cs) = Inr (entry_at y cs)" .
  have "entry_at x cs \<noteq> Some (Dir es)" for es
  proof
    assume "entry_at x cs = Some (Dir es)"
    with e have "f (Some (Dir es)) = Inr (entry_at y cs)" by simp
    with assms(1) show False unfolding file_change_def by blast
  qed
  moreover have "entry_at y cs \<noteq> Some (Dir es)" for es
  proof
    assume "entry_at y cs = Some (Dir es)"
    with e have "f (entry_at x cs) = Inr (Some (Dir es))" by simp
    with assms(1) show False unfolding file_change_def by blast
  qed
  ultimately show ?thesis
    by (auto simp: dir_at_def split: option.splits node.splits)
qed

lemma upd_dir_at:
  assumes "file_change f" "upd f x cs = Inr y"
  shows "dir_at y ds = dir_at x ds"
  using upd_dir_same[OF assms] upd_entry_other[OF assms, of ds] by (cases "ds = cs") auto

section \<open>Facts about reading and writing files\<close>

lemma path_comps_Nil [simp]: "path_comps [] = []"
  by (simp add: path_comps_def)

lemma os_modify_upd:
  "os_modify f fs p = Inr fs' \<Longrightarrow> upd f (Some fs) (path_comps p) = Inr (Some fs') \<and> p \<noteq> []"
  by (auto simp: os_modify_def split: if_splits sum.splits option.splits)

lemma os_modify_dir_at:
  "file_change f \<Longrightarrow> os_modify f fs p = Inr fs' \<Longrightarrow> dir_at (Some fs') ds = dir_at (Some fs) ds"
  using upd_dir_at os_modify_upd by blast

lemma os_modify_content_other:
  "file_change f \<Longrightarrow> os_modify f fs p = Inr fs' \<Longrightarrow> ds \<noteq> path_comps p
     \<Longrightarrow> content_at (Some fs') ds = content_at (Some fs) ds"
  using upd_entry_other os_modify_upd by blast

lemma os_modify_entry:
  "os_modify f fs p = Inr fs'
     \<Longrightarrow> f (entry_at (Some fs) (path_comps p)) = Inr (entry_at (Some fs') (path_comps p))"
  using upd_entry_same os_modify_upd by blast


lemma os_open_append_content:
  assumes "os_open_append fs p text = Inr fs'"
  shows "content_at (Some fs') (path_comps p)
         = Some ((case content_at (Some fs) (path_comps p) of None \<Rightarrow> [] | Some c \<Rightarrow> c) @ text)"
proof -
  from os_modify_entry[OF assms[unfolded os_open_append_def]]
  have "entry_at (Some fs') (path_comps p)
        = Some (File ((case content_at (Some fs) (path_comps p) of None \<Rightarrow> [] | Some c \<Rightarrow> c)
                      @ text))"
    by (cases "(text, entry_at (Some fs) (path_comps p))" rule: entry_append.cases)
      (auto simp: content_at_def)
  then show ?thesis by (simp add: content_at_def)
qed

lemma upd_succeeds:
  "cs \<noteq> [] \<Longrightarrow> dir_at x (butlast cs) \<Longrightarrow> f (entry_at x cs) = Inr z
     \<Longrightarrow> \<exists>y. upd f x cs = Inr (Some y)"
proof (induction f x cs rule: upd.induct)
  case (4 f es c cs)
  show ?case
  proof (cases cs)
    case Nil
    with 4(4) show ?thesis by (cases z) auto
  next
    case (Cons c' cs')
    with 4(3) have "dir_at (map_of es c) (butlast cs)" by (simp add: dir_at_def)
    moreover from 4(4) have "f (entry_at (map_of es c) cs) = Inr z" by simp
    ultimately obtain y where "upd f (map_of es c) cs = Inr (Some y)"
      using 4(1) Cons by blast
    then show ?thesis by simp
  qed
qed (auto simp: dir_at_def split: if_splits)

lemma os_open_append_succeeds:
  assumes "appendable fs (path_comps p)"
  shows "\<exists>fs'. os_open_append fs p text = Inr fs'"
proof -
  from assms have ne: "path_comps p \<noteq> []" and d: "dir_at (Some fs) (butlast (path_comps p))"
    and nd: "\<not> dir_at (Some fs) (path_comps p)"
    by (simp_all add: appendable_def)
  from ne have p: "p \<noteq> []" by auto
  from nd obtain z where "entry_append text (entry_at (Some fs) (path_comps p)) = Inr z"
    by (cases "(text, entry_at (Some fs) (path_comps p))" rule: entry_append.cases)
      (auto simp: dir_at_def)
  from upd_succeeds[of "path_comps p" "Some fs" "entry_append text" z, OF ne d this]
  obtain y where
    "upd (entry_append text) (Some fs) (path_comps p) = Inr (Some y)" by blast
  with p show ?thesis by (simp add: os_open_append_def os_modify_def)
qed

lemma os_path_exists_entry:
  "os_path_exists fs p \<longleftrightarrow> p \<noteq> [] \<and> entry_at (Some fs) (path_comps p) \<noteq> None"
proof (cases "stat_at (Some fs) (path_comps p)")
  case (Inl e)
  then have "entry_at (Some fs) (path_comps p) = None"
    using stat_at_entry_at[of "Some fs" "path_comps p"]
    by (cases "entry_at (Some fs) (path_comps p)") auto
  with Inl show ?thesis by (simp add: os_path_exists_def os_stat_def)
next
  case (Inr n)
  then have "entry_at (Some fs) (path_comps p) = Some n"
    by (simp add: stat_at_entry_at)
  with Inr show ?thesis by (simp add: os_path_exists_def os_stat_def)
qed

lemma os_open_read_content:
  "p \<noteq> [] \<Longrightarrow> content_at (Some fs) (path_comps p) = Some c
     \<Longrightarrow> os_open_read fs p = Inr (universal_newlines c)"
proof -
  assume p: "p \<noteq> []" and c: "content_at (Some fs) (path_comps p) = Some c"
  from c have "entry_at (Some fs) (path_comps p) = Some (File c)"
    by (auto simp: content_at_def split: option.splits node.splits)
  then have "stat_at (Some fs) (path_comps p) = Inr (File c)"
    by (simp add: stat_at_entry_at)
  with p show ?thesis by (simp add: os_open_read_def os_stat_def)
qed

section \<open>Facts about universal newlines\<close>

lemma universal_newlines_Cons:
  "c \<noteq> CHR 0x0D \<Longrightarrow> universal_newlines (c # xs) = c # universal_newlines xs"
  by (cases xs) auto

lemma universal_newlines_no_cr:
  "CHR 0x0D \<notin> set e \<Longrightarrow> universal_newlines (e @ w) = e @ universal_newlines w"
  by (induction e) (auto simp: universal_newlines_Cons)


lemma universal_newlines_append:
  "\<exists>pre'. universal_newlines (pre @ w) = pre' @ universal_newlines w"
proof (induction pre rule: universal_newlines.induct)
  case 1
  show ?case by simp
next
  case (2 c)
  show ?case
  proof (cases "c = CHR 0x0D")
    case False
    then show ?thesis by (simp add: universal_newlines_Cons)
  next
    case True
    show ?thesis
    proof (cases w)
      case Nil
      with True show ?thesis by simp
    next
      case (Cons d ds)
      with True show ?thesis
        by (cases "d = CHR 0x0A") (auto simp: universal_newlines_Cons)
    qed
  qed
next
  case (3 c d ds)
  show ?case
  proof (cases "c = CHR 0x0D")
    case False
    with 3(3) obtain pre' where
      "universal_newlines ((d # ds) @ w) = pre' @ universal_newlines w" by blast
    with False show ?thesis by (simp add: universal_newlines_Cons)
  next
    case True
    show ?thesis
    proof (cases "d = CHR 0x0A")
      case d: True
      with 3(1) True obtain pre' where
        "universal_newlines (ds @ w) = pre' @ universal_newlines w" by blast
      with True d show ?thesis by simp
    next
      case d: False
      with 3(2) True obtain pre' where
        "universal_newlines ((d # ds) @ w) = pre' @ universal_newlines w" by blast
      with True d show ?thesis by simp
    qed
  qed
qed

lemma str_contains_universal_newlines:
  assumes "CHR 0x0D \<notin> set e"
  shows "str_contains e (universal_newlines (pre @ e @ post))"
proof -
  obtain pre' where
    "universal_newlines (pre @ e @ post) = pre' @ universal_newlines (e @ post)"
    using universal_newlines_append by blast
  then have "universal_newlines (pre @ e @ post) = pre' @ e @ universal_newlines post"
    using assms by (simp add: universal_newlines_no_cr)
  then show ?thesis by (simp add: str_contains_sublist sublist_def) blast
qed

section \<open>Facts about the operation log\<close>

lemma log_extends_refl: "log_extends L fs fs"
  by (simp add: log_extends_def)

lemma log_extends_trans:
  assumes "log_extends L fs fs1" "log_extends L fs1 fs2"
  shows "log_extends L fs fs2"
proof -
  have d: "dir_at (Some fs2) ds = dir_at (Some fs) ds" for ds
    using assms by (simp add: log_extends_def)
  have o: "content_at (Some fs2) ds = Some c"
    if "ds \<noteq> L" "content_at (Some fs) ds = Some c" for ds c
  proof -
    from assms(1) that have "content_at (Some fs1) ds = Some c"
      unfolding log_extends_def by blast
    with assms(2) that(1) show ?thesis unfolding log_extends_def by blast
  qed
  have g: "\<exists>s. content_at (Some fs2) L = Some (c @ s)"
    if "content_at (Some fs) L = Some c" for c
  proof -
    from assms(1) that obtain s where "content_at (Some fs1) L = Some (c @ s)"
      unfolding log_extends_def by blast
    with assms(2) obtain s' where "content_at (Some fs2) L = Some ((c @ s) @ s')"
      unfolding log_extends_def by blast
    then show ?thesis by auto
  qed
  from d o g show ?thesis unfolding log_extends_def by blast
qed

lemma log_extends_logged:
  "log_extends L fs fs' \<Longrightarrow> logged L e fs \<Longrightarrow> logged L e fs'"
proof -
  assume x: "log_extends L fs fs'" and "logged L e fs"
  then obtain pre post where "content_at (Some fs) L = Some (pre @ e @ post)"
    by (auto simp: logged_def)
  with x obtain s where "content_at (Some fs') L = Some ((pre @ e @ post) @ s)"
    unfolding log_extends_def by blast
  then have "content_at (Some fs') L = Some (pre @ e @ (post @ s))" by simp
  then show ?thesis unfolding logged_def by blast
qed

lemma log_extends_appendable:
  "log_extends L fs fs' \<Longrightarrow> appendable fs L \<Longrightarrow> appendable fs' L"
  by (simp add: log_extends_def appendable_def)

text \<open>Creating a file that did not exist extends the log (by nothing).\<close>

lemma create_extends:
  assumes "\<not> os_path_exists fs p" "os_open_write fs p text = Inr fs'"
  shows "log_extends L fs fs'"
proof -
  from assms(2) have m: "os_modify (entry_write text) fs p = Inr fs'"
    by (simp add: os_open_write_def)
  from os_modify_upd[OF m] have p: "p \<noteq> []" by simp
  with assms(1) have none: "entry_at (Some fs) (path_comps p) = None"
    by (simp add: os_path_exists_entry)
  have d: "dir_at (Some fs') ds = dir_at (Some fs) ds" for ds
    using os_modify_dir_at[OF file_change_write m] .
  have o: "content_at (Some fs') ds = Some c" if "content_at (Some fs) ds = Some c" for ds c
  proof (cases "ds = path_comps p")
    case True
    with none that show ?thesis by (simp add: content_at_def)
  next
    case False
    from os_modify_content_other[OF file_change_write m False] that show ?thesis by simp
  qed
  have g: "\<exists>s. content_at (Some fs') L = Some (c @ s)" if "content_at (Some fs) L = Some c" for c
    using o[OF that] by simp
  from d o g show ?thesis unfolding log_extends_def by blast
qed

text \<open>Appending to the log extends it.\<close>

lemma append_extends:
  assumes "os_open_append fs lp text = Inr fs'"
  shows "log_extends (path_comps lp) fs fs'"
proof -
  from assms have m: "os_modify (entry_append text) fs lp = Inr fs'"
    by (simp add: os_open_append_def)
  have d: "dir_at (Some fs') ds = dir_at (Some fs) ds" for ds
    using os_modify_dir_at[OF file_change_append m] .
  have o: "content_at (Some fs') ds = Some c"
    if "ds \<noteq> path_comps lp" "content_at (Some fs) ds = Some c" for ds c
    using os_modify_content_other[OF file_change_append m that(1)] that(2) by simp
  have g: "\<exists>s. content_at (Some fs') (path_comps lp) = Some (c @ s)"
    if "content_at (Some fs) (path_comps lp) = Some c" for c
    using os_open_append_content[OF assms] that by simp
  from d o g show ?thesis unfolding log_extends_def by blast
qed

text \<open>
  Whatever \<open>log_operation\<close> returns or raises, and however deep the nesting goes, it only
  extends the log.
\<close>

lemma log_operation_extends:
  assumes lp: "safe_join cfg (working_directory cfg) [LOG_FILE] = Inr lp"
  shows "log_operation depth cfg fs operation filename = (r, fs')
           \<Longrightarrow> log_extends (path_comps lp) fs fs'"
proof (induction depth arbitrary: fs operation filename r fs')
  case 0
  show ?case
  proof (cases "os_path_exists fs (LOG_FILE_PATH cfg)")
    case True
    with 0 have "fs' = fs" by (simp add: log_operation.simps)
    then show ?thesis by (simp add: log_extends_refl)
  next
    case False
    show ?thesis
    proof (cases "os_open_write fs (LOG_FILE_PATH cfg) ''File Operation Logger ''")
      case (Inl e)
      with False 0 have "fs' = fs" by (simp add: log_operation.simps)
      then show ?thesis by (simp add: log_extends_refl)
    next
      case (Inr fs1)
      with False 0 have "fs' = fs1" by (simp add: log_operation.simps)
      with create_extends[OF False Inr] show ?thesis by simp
    qed
  qed
next
  case (Suc depth)
  let ?L = "path_comps lp"
  let ?entry = "log_entry_of operation filename"
  have step: "log_extends ?L fs1 fs'"
    if a: "(case append_to_file depth cfg fs1 LOG_FILE ?entry of
              (Inl e, fs2) \<Rightarrow> (Inl e, fs2) | (Inr r, fs2) \<Rightarrow> (Inr (), fs2)) = (r, fs')"
    for fs1
  proof (cases "os_open_append fs1 lp ?entry")
    case (Inl e)
    with a lp have "fs' = fs1"
      by (auto simp: append_to_file.simps append_to_file_try.simps split: prod.splits sum.splits)
    then show ?thesis by (simp add: log_extends_refl)
  next
    case (Inr fs1')
    obtain r3 fs3 where l: "log_operation depth cfg fs1' ''append'' LOG_FILE = (r3, fs3)"
      by (cases "log_operation depth cfg fs1' ''append'' LOG_FILE")
    with a lp Inr have "fs' = fs3"
      by (auto simp: append_to_file.simps append_to_file_try.simps split: prod.splits sum.splits)
    with Suc.IH[OF l] append_extends[OF Inr] show ?thesis
      using log_extends_trans by blast
  qed
  show ?case
  proof (cases "os_path_exists fs (LOG_FILE_PATH cfg)")
    case True
    with Suc.prems have "(case append_to_file depth cfg fs LOG_FILE ?entry of
              (Inl e, fs2) \<Rightarrow> (Inl e, fs2) | (Inr r, fs2) \<Rightarrow> (Inr (), fs2)) = (r, fs')"
      by (simp add: log_operation.simps)
    from step[OF this] show ?thesis .
  next
    case False
    show ?thesis
    proof (cases "os_open_write fs (LOG_FILE_PATH cfg) ''File Operation Logger ''")
      case (Inl e)
      with False Suc.prems have "fs' = fs" by (simp add: log_operation.simps)
      then show ?thesis by (simp add: log_extends_refl)
    next
      case (Inr fs1)
      with False Suc.prems have "(case append_to_file depth cfg fs1 LOG_FILE ?entry of
              (Inl e, fs2) \<Rightarrow> (Inl e, fs2) | (Inr r, fs2) \<Rightarrow> (Inr (), fs2)) = (r, fs')"
        by (simp add: log_operation.simps)
      from step[OF this] create_extends[OF False Inr] show ?thesis
        using log_extends_trans by blast
    qed
  qed
qed

text \<open>
  When \<open>log_operation\<close> returns and the log can be appended to, the log holds the entry
  afterwards.
\<close>

lemma log_operation_logged:
  assumes lp: "safe_join cfg (working_directory cfg) [LOG_FILE] = Inr lp"
    and ap: "appendable fs (path_comps lp)"
    and ok: "log_operation depth cfg fs operation filename = (Inr u, fs')"
  shows "logged (path_comps lp) (log_entry_of operation filename) fs'"
proof -
  let ?L = "path_comps lp"
  let ?entry = "log_entry_of operation filename"
  obtain fs1 where h: "(if \<not> os_path_exists fs (LOG_FILE_PATH cfg)
            then os_open_write fs (LOG_FILE_PATH cfg) ''File Operation Logger ''
            else Inr fs) = Inr fs1"
    using ok by (auto simp: log_operation.simps split: sum.splits)
  have e1: "log_extends ?L fs fs1"
    using h create_extends log_extends_refl by (auto split: if_splits)
  from log_extends_appendable[OF e1 ap] have ap1: "appendable fs1 ?L" .
  from ok h obtain d where d: "depth = Suc d"
    by (cases depth) (auto simp: log_operation.simps)
  from os_open_append_succeeds[OF ap1] obtain fs2 where
    a: "os_open_append fs1 lp ?entry = Inr fs2" by blast
  from os_open_append_content[OF a] have "logged ?L ?entry fs2"
    unfolding logged_def by (metis append.assoc append_Nil2)
  moreover
  obtain r3 fs3 where l: "log_operation d cfg fs2 ''append'' LOG_FILE = (r3, fs3)"
    by (cases "log_operation d cfg fs2 ''append'' LOG_FILE")
  from log_operation_extends[OF lp l] have "log_extends ?L fs2 fs3" .
  ultimately have "logged ?L ?entry fs3" using log_extends_logged by blast
  moreover from ok h d a l lp have "fs' = fs3"
    by (auto simp: log_operation.simps append_to_file.simps append_to_file_try.simps
        split: prod.splits sum.splits)
  ultimately show ?thesis by simp
qed

lemma normpath_nonempty: "normpath p \<noteq> []"
  by (simp add: normpath_def Let_def)

lemma safe_join_nonempty: "safe_join cfg base paths = Inr p \<Longrightarrow> p \<noteq> []"
  by (auto simp: safe_join_def Let_def normpath_nonempty split: if_splits)

text \<open>An entry without a carriage return that the log holds is found by the check.\<close>

lemma logged_is_duplicate:
  assumes lp: "safe_join cfg (working_directory cfg) [LOG_FILE] = Inr lp"
    and l: "logged (path_comps lp) (log_entry_of operation filename) fs"
    and cr: "CHR 0x0D \<notin> set (log_entry_of operation filename)"
  shows "check_duplicate_operation cfg fs operation filename = Inr True"
proof -
  from l obtain pre post where
    c: "content_at (Some fs) (path_comps lp) = Some (pre @ log_entry_of operation filename @ post)"
    by (auto simp: logged_def)
  from safe_join_nonempty[OF lp] have "lp \<noteq> []" .
  from os_open_read_content[OF this c] lp
  have "read_file cfg fs LOG_FILE
        = Inr (universal_newlines (pre @ log_entry_of operation filename @ post))"
    by (simp add: read_file_def read_file_try_def)
  with str_contains_universal_newlines[OF cr] show ?thesis
    by (simp add: check_duplicate_operation_def)
qed

section \<open>Deleting twice\<close>

lemma log_entry_no_cr:
  "CHR 0x0D \<notin> set operation \<Longrightarrow> CHR 0x0D \<notin> set filename
     \<Longrightarrow> CHR 0x0D \<notin> set (log_entry_of operation filename)"
  by (simp add: log_entry_of_def)

lemma delete_file_success:
  assumes "delete_file depth cfg fs filename = (Inr ''File deleted successfully.'', fs1)"
  shows "check_duplicate_operation cfg fs ''delete'' filename = Inr False
     \<and> (\<exists>fp fsA u. safe_join cfg (working_directory cfg) [filename] = Inr fp
            \<and> os_remove fs fp = Inr fsA
            \<and> log_operation depth cfg fsA ''delete'' filename = (Inr u, fs1))"
  using assms
  by (auto simp: delete_file_def delete_file_try_def split: sum.splits bool.splits prod.splits)

text \<open>
  For a file name without a carriage return, in a file system where the log file can be
  appended to: after a first \<open>delete_file\<close> that returned its message of success, a second
  \<open>delete_file\<close> of the same name returns the duplicate-operation failure and leaves the
  file system exactly as it was.
\<close>

lemma second_delete_is_duplicate:
  assumes lp: "safe_join cfg (working_directory cfg) [LOG_FILE] = Inr lp"
    and ap: "appendable fs (path_comps lp)"
    and cr: "CHR 0x0D \<notin> set filename"
    and first: "delete_file depth cfg fs filename = (Inr ''File deleted successfully.'', fs1)"
  shows "delete_file depth' cfg fs1 filename = (Inr ''Error: File has already been deleted.'', fs1)"
proof -
  from delete_file_success[OF first] obtain fp fsA u where
    rm: "os_remove fs fp = Inr fsA"
    and lg: "log_operation depth cfg fsA ''delete'' filename = (Inr u, fs1)"
    by blast
  from rm have "\<And>ds. dir_at (Some fsA) ds = dir_at (Some fs) ds"
    using os_modify_dir_at[OF file_change_remove] by (simp add: os_remove_def)
  with ap have apA: "appendable fsA (path_comps lp)" by (simp add: appendable_def)
  from log_operation_logged[OF lp apA lg]
  have "logged (path_comps lp) (log_entry_of ''delete'' filename) fs1" .
  moreover have "CHR 0x0D \<notin> set (log_entry_of ''delete'' filename)"
    using cr by (simp add: log_entry_no_cr)
  ultimately have "check_duplicate_operation cfg fs1 ''delete'' filename = Inr True"
    using logged_is_duplicate[OF lp] by blast
  then show ?thesis by (simp add: delete_file_def)
qed

text \<open>The check, with the case of a read that failed settled once and for all.\<close>

lemma check_duplicate_operation_eval:
  "check_duplicate_operation cfg fs operation filename =
     (case read_file_try cfg fs LOG_FILE of
        Inl e \<Rightarrow> Inr False
      | Inr content \<Rightarrow> Inr (str_contains (log_entry_of operation filename) content))"
proof (cases "read_file_try cfg fs LOG_FILE")
  case (Inl e)
  with check_duplicate_operation_failed_read[OF Inl] show ?thesis by simp
next
  case (Inr content)
  then show ?thesis by (simp add: check_duplicate_operation_def read_file_def)
qed

lemmas path_eval = safe_join_restricted os_path_join_def startswith_def endswith_def
  normpath_def initial_slashes_of_def path_comps_def

lemmas file_eval = read_file_def read_file_try_def check_duplicate_operation_eval
  write_to_file_def write_to_file_try_def delete_file_def delete_file_try_def
  log_operation.simps append_to_file.simps append_to_file_try.simps
  os_open_read_def os_open_write_def os_open_append_def os_remove_def os_makedirs_def
  os_modify_def os_stat_def os_path_exists_def os_path_dirname_def rstrip_slashes_def
  LOG_FILE_def LOG_FILE_PATH_def log_entry_of_def

text \<open>
  C8. The claim says that a second \<open>delete_file\<close> of a name, after a first one that
  succeeded, returns the duplicate-operation failure. The code does not for a file name
  with a carriage return, nor where a directory is in the place of the log file. The log
  is read in text mode, which turns the carriage return of the logged name into a line
  feed, so \<open>check_duplicate_operation\<close> does not find the entry of the operation that was
  performed; and an append to a log that is a directory fails without a trace. In both
  cases the first \<open>delete_file\<close> succeeds and the second one tries to remove the file again
  and returns the error of \<open>os.remove\<close>.
\<close>

theorem second_delete_not_duplicate:
  "delete_file 1 \<lparr>restricted = True, working_directory = ''/w'', cwd = ''/''\<rparr>
      (Dir [(''w'', Dir [([CHR ''a'', CHR 0x0D, CHR ''b''], File ''x'')])])
      [CHR ''a'', CHR 0x0D, CHR ''b'']
     = (Inr ''File deleted successfully.'',
        Dir [(''w'', Dir [(''file_logger.txt'',
                File (''File Operation Logger ''
                      @ log_entry_of ''delete'' [CHR ''a'', CHR 0x0D, CHR ''b'']))])])
   \<and> delete_file 1 \<lparr>restricted = True, working_directory = ''/w'', cwd = ''/''\<rparr>
      (Dir [(''w'', Dir [(''file_logger.txt'',
                File (''File Operation Logger ''
                      @ log_entry_of ''delete'' [CHR ''a'', CHR 0x0D, CHR ''b'']))])])
      [CHR ''a'', CHR 0x0D, CHR ''b'']
     = (Inr (''Error: '' @ str_exn (OSError ENOENT [CHR ''/'', CHR ''w'', CHR ''/'', CHR ''a'', CHR 0x0D, CHR ''b''])),
        Dir [(''w'', Dir [(''file_logger.txt'',
                File (''File Operation Logger ''
                      @ log_entry_of ''delete'' [CHR ''a'', CHR 0x0D, CHR ''b'']))])])
   \<and> delete_file 1 \<lparr>restricted = True, working_directory = ''/w'', cwd = ''/''\<rparr>
      (Dir [(''w'', Dir [(''a.txt'', File ''x''), (''file_logger.txt'', Dir [])])]) ''a.txt''
     = (Inr ''File deleted successfully.'', Dir [(''w'', Dir [(''file_logger.txt'', Dir [])])])
   \<and> delete_file 1 \<lparr>restricted = True, working_directory = ''/w'', cwd = ''/''\<rparr>
      (Dir [(''w'', Dir [(''file_logger.txt'', Dir [])])]) ''a.txt''
     = (Inr (''Error: '' @ str_exn (OSError ENOENT ''/w/a.txt'')),
        Dir [(''w'', Dir [(''file_logger.txt'', Dir [])])])
   \<and> ''Error: '' @ str_exn (OSError ENOENT ''/w/a.txt'') \<noteq> ''Error: File has already been deleted.''"
  by (simp add: file_eval path_eval)

section \<open>Facts about \<open>os.makedirs\<close> and \<open>os.path.dirname\<close>\<close>

lemma dir_at_Nil: "dir_at x [] = (\<exists>es. x = Some (Dir es))"
  by (auto simp: dir_at_def split: option.splits node.splits)






lemma str_split_nonempty: "str_split sep s \<noteq> []"
  by (induction s) (auto split: list.splits)

lemma str_split_append:
  "str_split sep (a @ sep # b) = str_split sep a @ str_split sep b"
proof (induction a)
  case Nil
  show ?case by simp
next
  case (Cons c a)
  obtain w ws where w: "str_split sep a = w # ws"
    using str_split_nonempty[of sep a] by (cases "str_split sep a") auto
  with Cons show ?case by simp
qed

lemma path_comps_append_slash:
  "path_comps (a @ CHR ''/'' # b) = path_comps a @ path_comps b"
  by (simp add: path_comps_def str_split_append)







section \<open>Writing once, and reading back\<close>




section \<open>Facts about splitting, joining and normalizing paths\<close>

lemma str_split_nosep: "sep \<notin> set a \<Longrightarrow> str_split sep a = [a]"
  by (induction a) auto

lemma str_split_no_sep_inside: "x \<in> set (str_split sep s) \<Longrightarrow> sep \<notin> set x"
proof (induction s arbitrary: x)
  case Nil
  then show ?case by simp
next
  case (Cons c s)
  obtain w ws where w: "str_split sep s = w # ws"
    using str_split_nonempty[of sep s] by (cases "str_split sep s") auto
  show ?case
  proof (cases "c = sep")
    case True
    with Cons show ?thesis by auto
  next
    case False
    with Cons.prems w have "x = c # w \<or> x \<in> set ws" by simp
    then show ?thesis
    proof
      assume "x = c # w"
      moreover have "sep \<notin> set w" using Cons.IH[of w] w by simp
      ultimately show ?thesis using False by simp
    next
      assume "x \<in> set ws"
      then show ?thesis using Cons.IH[of x] w by simp
    qed
  qed
qed

lemma str_split_join:
  "xs \<noteq> [] \<Longrightarrow> \<forall>x\<in>set xs. sep \<notin> set x \<Longrightarrow> str_split sep (str_join [sep] xs) = xs"
proof (induction "[sep]" xs rule: str_join.induct)
  case (3 x y ys)
  then have "str_split sep (str_join [sep] (y # ys)) = y # ys" by simp
  moreover have "str_split sep x = [x]" using 3(3) by (simp add: str_split_nosep)
  ultimately show ?case using str_split_append[of sep x "str_join [sep] (y # ys)"] by simp
qed (simp_all add: str_split_nosep)

lemma path_comps_valid: "valid_name x \<Longrightarrow> path_comps x = [x]"
  by (simp add: path_comps_def valid_name_def str_split_nosep)

lemma path_comps_prepend_slashes: "path_comps (replicate k CHR ''/'' @ s) = path_comps s"
proof (induction k)
  case (Suc k)
  from path_comps_append_slash[of "[]" "replicate k CHR ''/'' @ s"] Suc show ?case by simp
qed simp

lemma path_comps_str_join:
  "\<forall>x\<in>set xs. x \<noteq> [] \<and> CHR ''/'' \<notin> set x \<Longrightarrow> path_comps (str_join ''/'' xs) = xs"
proof (induction "''/''" xs rule: str_join.induct)
  case (3 x y ys)
  then have "path_comps (str_join ''/'' (y # ys)) = y # ys" by simp
  moreover have "path_comps x = [x]" using 3(2) by (simp add: path_comps_def str_split_nosep)
  ultimately show ?case using path_comps_append_slash[of x "str_join ''/'' (y # ys)"] by simp
qed (simp_all add: path_comps_def str_split_nosep)

lemma normpath_loop_append:
  "normpath_loop k acc (xs @ ys) = normpath_loop k (normpath_loop k acc xs) ys"
  by (induction k acc xs rule: normpath_loop.induct) simp_all

lemma normpath_loop_valid:
  "\<forall>n\<in>set names. valid_name n \<Longrightarrow> normpath_loop k acc names = acc @ names"
  by (induction names arbitrary: acc) (auto simp: valid_name_def)

lemma normpath_loop_abs: "0 < k \<Longrightarrow> normpath_loop k acc xs = normpath_loop 1 acc xs"
  by (induction k acc xs rule: normpath_loop.induct) simp_all

lemma normpath_loop_elems:
  "x \<in> set (normpath_loop k acc xs) \<Longrightarrow> x \<in> set acc \<or> (x \<in> set xs \<and> x \<noteq> [])"
proof (induction k acc xs rule: normpath_loop.induct)
  case (2 k acc c cs)
  then show ?case
    by (auto split: if_splits dest: in_set_butlastD)
qed simp

lemma initial_slashes_abs: "startswith p ''/'' \<Longrightarrow> 0 < initial_slashes_of p"
  by (simp add: initial_slashes_of_def)

text \<open>
  The components of a normalized absolute path are what the loop of \<open>normpath\<close> makes of
  the pieces of the path.
\<close>

lemma path_comps_normpath:
  assumes "startswith p ''/''"
  shows "path_comps (normpath p) = normpath_loop 1 [] (str_split CHR ''/'' p)"
proof -
  define k where "k = initial_slashes_of p"
  define comps where "comps = normpath_loop k [] (str_split CHR ''/'' p)"
  from assms have k: "0 < k" by (simp add: k_def initial_slashes_abs)
  from assms have p: "p \<noteq> []" by (auto simp: startswith_def)
  have np: "normpath p = replicate k CHR ''/'' @ str_join ''/'' comps"
    using p k by (simp add: normpath_def Let_def k_def comps_def)
  have "\<forall>x\<in>set comps. x \<noteq> [] \<and> CHR ''/'' \<notin> set x"
  proof
    fix x assume "x \<in> set comps"
    then have "x \<in> set (str_split CHR ''/'' p) \<and> x \<noteq> []"
      unfolding comps_def using normpath_loop_elems[of x k "[]" "str_split CHR ''/'' p"] by simp
    then show "x \<noteq> [] \<and> CHR ''/'' \<notin> set x"
      using str_split_no_sep_inside[of x "CHR ''/''" p] by simp
  qed
  then have "path_comps (str_join ''/'' comps) = comps" by (rule path_comps_str_join)
  with np have "path_comps (normpath p) = comps" by (simp add: path_comps_prepend_slashes)
  then show ?thesis unfolding comps_def using normpath_loop_abs[OF k] by simp
qed

lemma endswith_slash: "endswith t ''/'' \<longleftrightarrow> (\<exists>t'. t = t' @ ''/'')"
proof
  assume "endswith t ''/''"
  then have "t = take (length t - 1) t @ ''/''"
    by (simp add: endswith_def) (metis append_take_drop_id)
  then show "\<exists>t'. t = t' @ ''/''" by blast
next
  assume "\<exists>t'. t = t' @ ''/''"
  then show "endswith t ''/''" by (auto simp: endswith_def)
qed

lemma valid_name_last: "valid_name b \<Longrightarrow> b \<noteq> [] \<and> last b \<noteq> CHR ''/''"
  by (metis last_in_set valid_name_def)

lemma valid_name_not_slash_first: "valid_name name \<Longrightarrow> \<not> startswith name ''/''"
  by (cases name) (auto simp: valid_name_def startswith_def)

text \<open>Joining a file name to a path adds one component.\<close>

lemma normpath_loop_join:
  assumes "t \<noteq> []" "valid_name name"
  shows "normpath_loop 1 [] (str_split CHR ''/'' (os_path_join t [name]))
         = normpath_loop 1 [] (str_split CHR ''/'' t) @ [name]"
proof (cases "endswith t ''/''")
  case True
  then obtain t' where t': "t = t' @ ''/''" using endswith_slash by blast
  have sn: "str_split CHR ''/'' name = [name]"
    using assms(2) by (simp add: valid_name_def str_split_nosep)
  from True assms have j: "os_path_join t [name] = t' @ CHR ''/'' # name"
    by (simp add: os_path_join_def valid_name_not_slash_first t')
  have "str_split CHR ''/'' t = str_split CHR ''/'' t' @ [[]]"
    using str_split_append[of "CHR ''/''" t' "[]"] t' by simp
  then have a: "normpath_loop 1 [] (str_split CHR ''/'' t)
                = normpath_loop 1 [] (str_split CHR ''/'' t')"
    by (simp add: normpath_loop_append)
  have "str_split CHR ''/'' (os_path_join t [name]) = str_split CHR ''/'' t' @ [name]"
    using str_split_append[of "CHR ''/''" t' name] j sn by simp
  then have "normpath_loop 1 [] (str_split CHR ''/'' (os_path_join t [name]))
             = normpath_loop 1 [] (str_split CHR ''/'' t') @ [name]"
    using normpath_loop_valid[of "[name]"] assms(2) by (simp only: normpath_loop_append) simp
  with a show ?thesis by simp
next
  case False
  have sn: "str_split CHR ''/'' name = [name]"
    using assms(2) by (simp add: valid_name_def str_split_nosep)
  from False assms have j: "os_path_join t [name] = t @ CHR ''/'' # name"
    by (simp add: os_path_join_def valid_name_not_slash_first)
  have "str_split CHR ''/'' (os_path_join t [name]) = str_split CHR ''/'' t @ [name]"
    using str_split_append[of "CHR ''/''" t name] j sn by simp
  then show ?thesis
    using normpath_loop_valid[of "[name]"] assms(2) by (simp only: normpath_loop_append) simp
qed

lemma os_path_join_absolute:
  "startswith t ''/'' \<Longrightarrow> valid_name name \<Longrightarrow> startswith (os_path_join t [name]) ''/''"
  by (cases t) (auto simp: os_path_join_def startswith_def valid_name_def)

lemma join_loop_valid:
  "path \<noteq> [] \<Longrightarrow> last path \<noteq> CHR ''/'' \<Longrightarrow> \<forall>n\<in>set names. valid_name n
     \<Longrightarrow> join_loop path names = str_join ''/'' (path # names)"
proof (induction names arbitrary: path)
  case Nil
  show ?case by simp
next
  case (Cons b names)
  from Cons.prems have b: "valid_name b" by simp
  then have nb: "b \<noteq> []" "last b \<noteq> CHR ''/''"
    using valid_name_last by blast+
  from Cons.prems have ne: "\<not> endswith path ''/''"
    by (auto simp: endswith_slash)
  have "join_loop (path @ ''/'' @ b) names = str_join ''/'' ((path @ ''/'' @ b) # names)"
    using Cons.IH[of "path @ ''/'' @ b"] Cons.prems nb by simp
  moreover have "str_join ''/'' ((path @ ''/'' @ b) # names) = str_join ''/'' (path # b # names)"
    by (cases names) simp_all
  ultimately show ?case
    using Cons.prems(1) b ne by (simp add: valid_name_not_slash_first)
qed

lemma os_path_join_valid:
  "\<forall>n\<in>set (r # rs). valid_name n \<Longrightarrow> os_path_join r rs = str_join ''/'' (r # rs)"
proof -
  assume a: "\<forall>n\<in>set (r # rs). valid_name n"
  then have "r \<noteq> []" "last r \<noteq> CHR ''/''"
    using valid_name_last[of r] by simp_all
  with a show ?thesis by (simp add: os_path_join_def join_loop_valid)
qed

text \<open>
  The relative path of a path below \<open>start\<close>: the components that follow those of \<open>start\<close>.
\<close>

lemma os_path_relpath_below:
  assumes "startswith start ''/''" "startswith path ''/''"
    and "normpath_loop 1 [] (str_split CHR ''/'' path)
         = normpath_loop 1 [] (str_split CHR ''/'' start) @ ds"
    and "ds \<noteq> []" "\<forall>d\<in>set ds. valid_name d"
  shows "os_path_relpath getcwd path start = Inr (str_join ''/'' ds)"
proof -
  define sl where "sl = normpath_loop 1 [] (str_split CHR ''/'' start)"
  from assms(2) have p: "path \<noteq> []" by (auto simp: startswith_def)
  have s1: "filter (\<lambda>x. x \<noteq> []) (str_split CHR ''/'' (os_path_abspath getcwd start)) = sl"
    using path_comps_normpath[OF assms(1)] assms(1)
    by (simp add: os_path_abspath_def path_comps_def sl_def)
  have s2: "filter (\<lambda>x. x \<noteq> []) (str_split CHR ''/'' (os_path_abspath getcwd path)) = sl @ ds"
    using path_comps_normpath[OF assms(2)] assms(2,3)
    by (simp add: os_path_abspath_def path_comps_def sl_def)
  have c: "commonprefix [sl, sl @ ds] = sl"
    by (simp add: commonprefix_pair lcp_eq_left_iff)
  obtain r rs where ds: "ds = r # rs" using assms(4) by (cases ds) auto
  with assms(5) have j: "os_path_join r rs = str_join ''/'' ds"
    using os_path_join_valid[of r rs] by simp
  show ?thesis
    using p by (simp add: os_path_relpath_def Let_def s1 s2[unfolded ds] c[unfolded ds] j[unfolded ds] ds)
qed

lemma str_split_relative_path:
  "ds \<noteq> [] \<Longrightarrow> \<forall>d\<in>set ds. valid_name d \<Longrightarrow> str_split CHR ''/'' (str_join ''/'' ds) = ds"
  using str_split_join[of ds "CHR ''/''"] by (simp add: valid_name_def)

section \<open>Facts about \<open>os.walk\<close> and \<open>search_files\<close>\<close>

lemma wf_entries_map_of:
  "wf_entries es \<Longrightarrow> map_of es c = Some n \<Longrightarrow> valid_name c \<and> wf_node n"
  by (induction es) (auto split: if_splits)

lemma wf_entries_names: "wf_entries es \<Longrightarrow> (name, n) \<in> set es \<Longrightarrow> valid_name name"
  by (induction es) auto

lemma wf_stat_at:
  "stat_at x cs = Inr n \<Longrightarrow> \<forall>m. x = Some m \<longrightarrow> wf_node m \<Longrightarrow> wf_node n"
proof (induction x cs rule: stat_at.induct)
  case (4 es c cs)
  show ?case
  proof (rule 4(1))
    from 4(2) show "stat_at (map_of es c) cs = Inr n" by simp
    from 4(3) have "wf_entries es" by simp
    then show "\<forall>m. map_of es c = Some m \<longrightarrow> wf_node m"
      using wf_entries_map_of by blast
  qed
qed simp_all

lemma walked_below_refl: "startswith t ''/'' \<Longrightarrow> walked_below t t"
  unfolding walked_below_def by (auto intro: exI[of _ "[]"])

lemma walked_below_step:
  assumes "startswith t ''/''" "valid_name name" "walked_below (os_path_join t [name]) root"
  shows "walked_below t root"
proof -
  from assms(1) have t: "t \<noteq> []" by (auto simp: startswith_def)
  from assms(3) obtain ds where ds: "\<forall>d\<in>set ds. valid_name d"
    and r: "normpath_loop 1 [] (str_split CHR ''/'' root)
          = normpath_loop 1 [] (str_split CHR ''/'' (os_path_join t [name])) @ ds"
    and a: "startswith root ''/''"
    unfolding walked_below_def by blast
  from r normpath_loop_join[OF t assms(2)]
  have "normpath_loop 1 [] (str_split CHR ''/'' root)
        = normpath_loop 1 [] (str_split CHR ''/'' t) @ (name # ds)" by simp
  moreover have "\<forall>d\<in>set (name # ds). valid_name d" using ds assms(2) by simp
  ultimately show ?thesis using a unfolding walked_below_def by blast
qed

lemma walk_below:
  "wf_node n \<Longrightarrow> startswith top_path ''/'' \<Longrightarrow> (root, dirs, files) \<in> set (walk top_path n)
     \<Longrightarrow> walked_below top_path root \<and> (\<forall>f\<in>set files. valid_name f)"
  and walk_dirs_below:
  "wf_entries es \<Longrightarrow> startswith top_path ''/'' \<Longrightarrow> (root, dirs, files) \<in> set (walk_dirs top_path es)
     \<Longrightarrow> walked_below top_path root \<and> (\<forall>f\<in>set files. valid_name f)"
proof (induction top_path n and top_path es arbitrary: root dirs files and root dirs files
    rule: walk_walk_dirs.induct)
  case (1 top_path content)
  then show ?case by simp
next
  case (2 top_path es)
  from 2(4) consider
    (here) "root = top_path"
      "files = map fst (filter (\<lambda>(name, n). case n of Dir ds \<Rightarrow> False | File x \<Rightarrow> True) es)"
    | (deeper) "(root, dirs, files) \<in> set (walk_dirs top_path es)"
    by auto
  then show ?case
  proof cases
    case here
    have "\<forall>f\<in>set files. valid_name f"
      unfolding here(2) using 2(2) wf_entries_names by fastforce
    with here(1) 2(3) show ?thesis by (simp add: walked_below_refl)
  next
    case deeper
    from 2(1)[OF _ 2(3) deeper] 2(2) show ?thesis by simp
  qed
next
  case (3 top_path)
  then show ?case by simp
next
  case (4 top_path name n es)
  from 4(3) have v: "valid_name name" and wn: "wf_node n" and we: "wf_entries es" by simp_all
  from 4(5) consider
    (first) ds where "n = Dir ds" "(root, dirs, files) \<in> set (walk (os_path_join top_path [name]) n)"
    | (rest) "(root, dirs, files) \<in> set (walk_dirs top_path es)"
    by (cases n) auto
  then show ?case
  proof cases
    case first
    have a: "startswith (os_path_join top_path [name]) ''/''"
      using os_path_join_absolute[OF 4(4) v] .
    from 4(1)[OF first(1) wn a first(2)]
    have "walked_below (os_path_join top_path [name]) root" and f: "\<forall>f\<in>set files. valid_name f"
      by simp_all
    with walked_below_step[OF 4(4) v] show ?thesis by simp
  next
    case rest
    from 4(2)[OF we 4(4) rest] show ?thesis .
  qed
qed

lemma collect_all_Inr:
  "\<forall>x\<in>set rs. \<exists>v. x = Inr v \<and> Q v \<Longrightarrow> \<exists>vs. collect rs = Inr vs \<and> (\<forall>v\<in>set vs. Q v)"
proof (induction rs rule: collect.induct)
  case (3 x rs)
  then obtain vs where "collect rs = Inr vs" "\<forall>v\<in>set vs. Q v" by auto
  moreover from 3(2) have "Q x" by simp
  ultimately show ?case by simp
qed auto

lemma os_walk_below:
  assumes "wf_node fs" "startswith top_path ''/''" "(root, dirs, files) \<in> set (os_walk fs top_path)"
  shows "walked_below top_path root \<and> (\<forall>f\<in>set files. valid_name f)"
proof (cases "os_stat fs top_path")
  case (Inl e)
  with assms(3) show ?thesis by (simp add: os_walk_def)
next
  case (Inr n)
  then have "stat_at (Some fs) (path_comps top_path) = Inr n"
    by (auto simp: os_stat_def split: if_splits sum.splits)
  from wf_stat_at[OF this] assms(1) have "wf_node n" by simp
  from walk_below[OF this assms(2)] Inr assms(3) show ?thesis by (simp add: os_walk_def)
qed

text \<open>
  The relative path of a walked file: the names of the directories from the working
  directory down, then the name of the file.
\<close>

lemma walked_file_relpath:
  assumes "startswith wd ''/''" "walked_below wd root" "valid_name file"
  shows "\<exists>ds. (\<forall>d\<in>set ds. valid_name d)
           \<and> os_path_relpath getcwd (os_path_join root [file]) wd = Inr (str_join ''/'' (ds @ [file]))
           \<and> str_split CHR ''/'' (str_join ''/'' (ds @ [file])) = ds @ [file]"
proof -
  from assms(2) obtain ds where ds: "\<forall>d\<in>set ds. valid_name d"
    and r: "normpath_loop 1 [] (str_split CHR ''/'' root)
          = normpath_loop 1 [] (str_split CHR ''/'' wd) @ ds"
    and a: "startswith root ''/''"
    unfolding walked_below_def by blast
  from a have rn: "root \<noteq> []" by (auto simp: startswith_def)
  have v: "\<forall>d\<in>set (ds @ [file]). valid_name d" using ds assms(3) by simp
  have "normpath_loop 1 [] (str_split CHR ''/'' (os_path_join root [file]))
        = normpath_loop 1 [] (str_split CHR ''/'' wd) @ (ds @ [file])"
    using normpath_loop_join[OF rn assms(3)] r by simp
  from os_path_relpath_below[OF assms(1) os_path_join_absolute[OF a assms(3)] this _ v]
  have "os_path_relpath getcwd (os_path_join root [file]) wd = Inr (str_join ''/'' (ds @ [file]))"
    by simp
  moreover have "str_split CHR ''/'' (str_join ''/'' (ds @ [file])) = ds @ [file]"
    using str_split_relative_path[OF _ v] by simp
  ultimately show ?thesis using ds by blast
qed

text \<open>
  C7, as the code has it. \<open>search_files("")\<close> and \<open>search_files("/")\<close> return the same list,
  both walk the whole working directory. For an absolute working directory and a
  well-formed tree the search raises nothing, and in every path it returns the last
  component, the name of the file, does not begin with a dot.
\<close>

theorem search_whole_working_directory:
  assumes "startswith (working_directory cfg) ''/''" "wf_node fs"
  shows "search_files cfg fs [] = search_files cfg fs ''/''
     \<and> (\<exists>paths. search_files cfg fs [] = Inr paths
           \<and> (\<forall>r\<in>set paths. \<not> startswith (last (str_split CHR ''/'' r)) ''.''))"
proof -
  let ?wd = "working_directory cfg"
  let ?Q = "\<lambda>r. \<not> startswith (last (str_split CHR ''/'' r)) ''.''"
  let ?rs = "concat
               (map (\<lambda>(root, dirs, files).
                       map (\<lambda>file. os_path_relpath (cwd cfg) (os_path_join root [file]) ?wd)
                         (filter (\<lambda>file. \<not> startswith file ''.'') files))
                  (os_walk fs ?wd))"
  have "\<forall>x\<in>set ?rs. \<exists>v. x = Inr v \<and> ?Q v"
  proof
    fix x assume "x \<in> set ?rs"
    then obtain root dirs files fname where
      w: "(root, dirs, files) \<in> set (os_walk fs ?wd)"
      and f: "fname \<in> set files" "\<not> startswith fname ''.''"
      and x: "x = os_path_relpath (cwd cfg) (os_path_join root [fname]) ?wd"
      by auto
    from os_walk_below[OF assms(2,1) w] f(1) have b: "walked_below ?wd root"
      and v: "valid_name fname" by simp_all
    from walked_file_relpath[OF assms(1) b v, of "cwd cfg"] obtain ds where
      "x = Inr (str_join ''/'' (ds @ [fname]))"
      "str_split CHR ''/'' (str_join ''/'' (ds @ [fname])) = ds @ [fname]"
      using x by auto
    with f(2) show "\<exists>v. x = Inr v \<and> ?Q v" by simp
  qed
  from collect_all_Inr[OF this] obtain paths where
    "collect ?rs = Inr paths" "\<forall>r\<in>set paths. ?Q r" by blast
  then have "\<exists>paths. search_files cfg fs [] = Inr paths \<and> (\<forall>r\<in>set paths. ?Q r)"
    by (simp add: search_files_def)
  moreover have "search_files cfg fs [] = search_files cfg fs ''/''"
    by (simp add: search_files_def)
  ultimately show ?thesis by blast
qed

lemmas search_eval = search_files_def os_walk_def os_stat_def os_path_relpath_def
  os_path_abspath_def commonprefix_pair Let_def

text \<open>
  C7, at a concrete input: a workspace \<open>/w\<close> with a hidden file, a file and a
  subdirectory.
\<close>

theorem search_whole_working_directory_witness:
  "search_files \<lparr>restricted = True, working_directory = ''/w'', cwd = ''/''\<rparr>
      (Dir [(''w'', Dir [(''.hidden'', File ''h''), (''sub'', Dir [(''a.txt'', File ''a'')]),
                         (''z'', File ''z'')])]) []
     = Inr [''z'', ''sub/a.txt'']
   \<and> search_files \<lparr>restricted = True, working_directory = ''/w'', cwd = ''/''\<rparr>
      (Dir [(''w'', Dir [(''.hidden'', File ''h''), (''sub'', Dir [(''a.txt'', File ''a'')]),
                         (''z'', File ''z'')])]) ''/''
     = Inr [''z'', ''sub/a.txt'']"
proof -
  let ?cfg = "\<lparr>restricted = True, working_directory = ''/w'', cwd = ''/''\<rparr>"
  let ?fs = "Dir [(''w'', Dir [(''.hidden'', File ''h''), (''sub'', Dir [(''a.txt'', File ''a'')]),
                         (''z'', File ''z'')])]"
  have a: "startswith (working_directory ?cfg) ''/''" by (simp add: startswith_def)
  have w: "wf_node ?fs" by (simp add: valid_name_def)
  have e: "search_files ?cfg ?fs [] = Inr [''z'', ''sub/a.txt'']"
    by (simp add: search_eval path_eval)
  from search_whole_working_directory[OF a w] e show ?thesis by simp
qed

text \<open>
  C7 fails for a file in a directory whose name begins with a dot: only the names of
  files are tested, the directory \<open>.git\<close> is walked like any other, and the path
  \<open>.git/config\<close> is returned, whose first component begins with a dot.
\<close>

theorem search_returns_path_in_dot_directory:
  "search_files \<lparr>restricted = True, working_directory = ''/w'', cwd = ''/''\<rparr>
      (Dir [(''w'', Dir [(''.git'', Dir [(''config'', File ''c'')])])]) []
     = Inr [''.git/config'']
   \<and> str_split CHR ''/'' ''.git/config'' = [''.git'', ''config'']
   \<and> startswith ''.git'' ''.''"
  by (simp add: search_eval path_eval)











section \<open>Writing a file for the first time\<close>









section \<open>Writing once, writing again, and reading back\<close>








end
